theory Spec2Isabelle
  imports Main "HOL-Library.Word" "HOL-Library.Sublist"
begin

section \<open>JavaScript values used by the sources\<close>

text \<open>
  A Node \<open>Buffer\<close> is a list of bytes. Arguments that may be given as \<open>null\<close> or left out
  are options (\<open>None\<close> is "not a Buffer"). Exceptions are values of a sum type: a
  \<open>TypeError\<close>, the \<open>SyntaxError\<close> of \<open>JSON.parse\<close>, and the error of \<open>require\<close> on
  something that is no module.
\<close>

type_synonym byte = "8 word"
type_synonym buffer = "byte list"

datatype error = TypeError | SyntaxError | RequireError

text \<open>
  \<open>slice(start, end)\<close> of a Buffer, an Array or a String: a negative index counts
  from the end, and both indices are clamped to the length.
\<close>

definition clamp_index :: "nat \<Rightarrow> int \<Rightarrow> nat" where
  "clamp_index n i = (if i < 0 then nat (max (int n + i) 0) else min (nat i) n)"

definition slice :: "'a list \<Rightarrow> int \<Rightarrow> int \<Rightarrow> 'a list" where
  "slice xs s e =
     (let a = clamp_index (length xs) s; b = clamp_index (length xs) e
      in take (b - a) (drop a xs))"

definition slice_from :: "'a list \<Rightarrow> int \<Rightarrow> 'a list" where
  "slice_from xs s = drop (clamp_index (length xs) s) xs"

text \<open>\<open>indexOf\<close>: the first position where the needle occurs, \<open>None\<close> for \<open>-1\<close>.\<close>

fun indexOf :: "'a list \<Rightarrow> 'a list \<Rightarrow> nat option" where
  "indexOf [] needle = (if needle = [] then Some 0 else None)"
| "indexOf (x # xs) needle =
     (if prefix needle (x # xs) then Some 0 else map_option Suc (indexOf xs needle))"

definition index_int :: "nat option \<Rightarrow> int" where
  "index_int r = (case r of None \<Rightarrow> - 1 | Some i \<Rightarrow> int i)"

text \<open>\<open>Number.prototype.toString(radix)\<close> on a non-negative integer.\<close>

definition digit_char :: "nat \<Rightarrow> char" where
  "digit_char d = ''0123456789abcdef'' ! d"

fun toString_radix :: "nat \<Rightarrow> nat \<Rightarrow> string" where
  "toString_radix r n =
     (if r < 2 \<or> n < r then [digit_char n]
      else toString_radix r (n div r) @ [digit_char (n mod r)])"

declare toString_radix.simps [simp del]

text \<open>
  \<open>parseInt(s, 16)\<close> reads the longest prefix of hexadecimal digits; with no digit at
  all the result is \<open>NaN\<close> (\<open>None\<close>). Every string the codec passes to it is made by
  \<open>toString(16)\<close> and zero filling, so it has neither white space, sign nor \<open>0x\<close>.
\<close>

definition hex_value :: "char \<Rightarrow> nat option" where
  "hex_value c =
     (let k = of_char c :: nat in
      if 48 \<le> k \<and> k \<le> 57 then Some (k - 48)
      else if 97 \<le> k \<and> k \<le> 102 then Some (k - 87)
      else if 65 \<le> k \<and> k \<le> 70 then Some (k - 55)
      else None)"

definition parseInt16 :: "string \<Rightarrow> nat option" where
  "parseInt16 s =
     (let ds = takeWhile (\<lambda>c. hex_value c \<noteq> None) s
      in if ds = [] then None
         else Some (foldl (\<lambda>acc c. 16 * acc + the (hex_value c)) 0 ds))"

text \<open>Storing a number into an element of a Buffer: modulo 256, \<open>NaN\<close> becomes 0.\<close>

definition to_uint8 :: "nat option \<Rightarrow> byte" where
  "to_uint8 v = (case v of None \<Rightarrow> 0 | Some n \<Rightarrow> of_nat n)"

section \<open>signal.js: the frame codec\<close>

definition START :: buffer where "START = [0x12, 0x23, 0x33]"
definition END :: buffer where "END = [0xAB, 0xCD, 0xEF]"
definition BOUNDARY :: buffer where "BOUNDARY = [0x10, 0x03]"
definition JOINT :: buffer where "JOINT = END @ START"

text \<open>\<open>MAX\<close> of the source; the name is taken by a binder of HOL.\<close>

definition MAX_MB :: nat where "MAX_MB = 5"
definition MAX_INFO_SIZE :: nat where "MAX_INFO_SIZE = MAX_MB * 1024 * 1024"

definition CLIENT_INIT :: byte where "CLIENT_INIT = 0x00"
definition CLIENT_FILE_CHANGE :: byte where "CLIENT_FILE_CHANGE = 0x01"
definition CLIENT_FILE_DELETE :: byte where "CLIENT_FILE_DELETE = 0x02"
definition CLIENT_FILE_CHECK :: byte where "CLIENT_FILE_CHECK = 0x03"
definition CLIENT_FILE_SYNC :: byte where "CLIENT_FILE_SYNC = 0x04"
definition CLIENT_NUMBER_OF_CHECK_FILES :: byte where "CLIENT_NUMBER_OF_CHECK_FILES = 0x05"
definition CLIENT_DEVELOPMENT :: byte where "CLIENT_DEVELOPMENT = 0x06"
definition CLIENT_BUILD :: byte where "CLIENT_BUILD = 0x07"
definition CLIENT_SYNC_FILES_MD5 :: byte where "CLIENT_SYNC_FILES_MD5 = 0x08"

definition SERVER_INIT_DONE :: buffer where "SERVER_INIT_DONE = [0xFF]"
definition SERVER_FILE_UPDATE :: buffer where "SERVER_FILE_UPDATE = [0xFE]"
definition SERVER_CONSOLE :: buffer where "SERVER_CONSOLE = [0xBB]"

text \<open>\<open>zeroFillBuffers\<close>: the loop puts a \<open>0\<close> in front until the text is long enough.\<close>

function zeroFillBuffers :: "string \<Rightarrow> nat \<Rightarrow> string" where
  "zeroFillBuffers content len =
     (if length content < len then zeroFillBuffers (CHR ''0'' # content) len else content)"
  by pat_completeness auto
termination
  by (relation "measure (\<lambda>(content, len). len - length content)") auto

declare zeroFillBuffers.simps [simp del]

text \<open>
  \<open>encode\<close> returns the frame, or the empty object \<open>{}\<close> when the frame would be larger
  than the cap. A signal that is not a Buffer raises.
\<close>

datatype encoded = Bytes buffer | EmptyObject

definition encode :: "buffer option \<Rightarrow> buffer option \<Rightarrow> buffer option \<Rightarrow> error + encoded" where
  "encode signal content0 note0 =
     (case signal of
        None \<Rightarrow> Inl TypeError
      | Some sig \<Rightarrow>
          (let content = (case content0 of Some c \<Rightarrow> c | None \<Rightarrow> []);
               note = (case note0 of Some n \<Rightarrow> n | None \<Rightarrow> []);
               len = length START + 3 + 1 + length note + length BOUNDARY
                       + length content + length END;
               length_x16 = zeroFillBuffers (toString_radix 16 len) 6
           in if MAX_INFO_SIZE < len then Inr EmptyObject
              else
                (let length_buf =
                       [to_uint8 (parseInt16 (slice length_x16 0 2)),
                        to_uint8 (parseInt16 (slice length_x16 2 4)),
                        to_uint8 (parseInt16 (slice_from length_x16 4))]
                 in Inr (Bytes (START @ length_buf @ sig @ note @ BOUNDARY @ content @ END)))))"

text \<open>\<open>split\<close>: cut the chunk after every end marker that a start marker follows.\<close>

function cut :: "buffer \<Rightarrow> buffer list \<Rightarrow> buffer list" where
  "cut data result =
     (case indexOf data JOINT of
        None \<Rightarrow> result @ [data]
      | Some index \<Rightarrow>
          (let slice1 = slice data 0 (int index + int (length END));
               surplus = slice_from data (int index + int (length END))
           in cut surplus (result @ [slice1])))"
  by pat_completeness auto
termination
proof (relation "measure (\<lambda>(data, result). length data)", goal_cases)
  case 1
  show ?case by simp
next
  case (2 data result index x xa)
  have less: "indexOf xs needle = Some i \<Longrightarrow> needle \<noteq> [] \<Longrightarrow> i < length xs"
    for xs needle :: buffer and i
    by (induction xs arbitrary: i) (auto split: if_splits)
  from 2(1) have "index < length data"
    by (rule less) (simp add: JOINT_def END_def)
  then show ?case
    using 2 by (simp add: slice_from_def clamp_index_def END_def)
qed

declare cut.simps [simp del]

definition split :: "buffer \<Rightarrow> buffer list" where
  "split data = cut data []"

text \<open>
  The reassembly zone is any object with a \<open>cache\<close> property; the property is
  \<open>undefined\<close> (\<open>None\<close>) until something is stored.
\<close>

record zone =
  cache :: "buffer option"

text \<open>
  The result of decoding one piece: a frame, or one of the two objects flagged
  \<open>incomplete\<close>. The type of a frame is \<open>cache[6]\<close>, \<open>undefined\<close> past the end.
\<close>

datatype decoded =
    IncompleteData buffer
  | IncompleteCache buffer
  | Frame (ftype: "byte option") (fcontent: buffer) (fnote: buffer)

fun incomplete :: "decoded \<Rightarrow> bool" where
  "incomplete (IncompleteData _) = True"
| "incomplete (IncompleteCache _) = True"
| "incomplete (Frame _ _ _) = False"

text \<open>
  \<open>cache.slice(3, 6).reduce((result, next) => result.toString(16) + next.toString(16))\<close>:
  with no initial value the first byte is the first accumulator, a number; from the
  second step on the accumulator is a string, whose \<open>toString\<close> ignores its argument.
  Reducing an empty array raises.
\<close>

datatype jsval = Num nat | Str string

fun toString16 :: "jsval \<Rightarrow> string" where
  "toString16 (Num n) = toString_radix 16 n"
| "toString16 (Str s) = s"

definition reduce_hex :: "buffer \<Rightarrow> error + jsval" where
  "reduce_hex bs =
     (case bs of
        [] \<Rightarrow> Inl TypeError
      | b # rest \<Rightarrow>
          Inr (foldl (\<lambda>result next. Str (toString16 result @ toString_radix 16 (unat next)))
                 (Num (unat b)) rest))"

text \<open>\<open>parseInt(v, 16)\<close>: a number is converted to its decimal text first.\<close>

fun parseInt_val :: "jsval \<Rightarrow> nat option" where
  "parseInt_val (Num n) = parseInt16 (toString_radix 10 n)"
| "parseInt_val (Str s) = parseInt16 s"

text \<open>\<open>MAX_INFO_SIZE < length\<close> is false when the length is \<open>NaN\<close>.\<close>

definition oversize :: "nat option \<Rightarrow> bool" where
  "oversize len = (case len of None \<Rightarrow> False | Some n \<Rightarrow> MAX_INFO_SIZE < n)"

definition nth_opt :: "'a list \<Rightarrow> nat \<Rightarrow> 'a option" where
  "nth_opt xs i = (if i < length xs then Some (xs ! i) else None)"

definition decode :: "buffer \<Rightarrow> 'a zone_scheme \<Rightarrow> error + (decoded \<times> 'a zone_scheme)" where
  "decode data z =
     (let cache0 = (case cache z of Some c \<Rightarrow> c | None \<Rightarrow> []) @ data;
          z1 = z\<lparr>cache := Some cache0\<rparr>
      in if START \<noteq> slice cache0 0 3 \<or> END \<noteq> slice_from cache0 (int (length cache0) - 3)
         then Inr (IncompleteData data, z1)
         else
           (let type = nth_opt cache0 6 in
            case reduce_hex (slice cache0 3 6) of
              Inl e \<Rightarrow> Inl e
            | Inr v \<Rightarrow>
                (let len = parseInt_val v in
                 if oversize len then Inr (IncompleteCache cache0, z1)
                 else
                   (let body = slice cache0 7 (int (length cache0) - 3);
                        index = index_int (indexOf body BOUNDARY);
                        note = slice body 0 index;
                        content = slice_from body (index + int (length BOUNDARY))
                    in Inr (Frame type content note, z1\<lparr>cache := Some []\<rparr>)))))"

text \<open>
  The exported \<open>decode\<close>: every piece of the chunk goes through \<open>decode\<close> in order, on
  the same zone, and the results flagged incomplete are filtered out.
\<close>

fun decode_map :: "buffer list \<Rightarrow> 'a zone_scheme \<Rightarrow> error + (decoded list \<times> 'a zone_scheme)" where
  "decode_map [] z = Inr ([], z)"
| "decode_map (chunk # chunks) z =
     (case decode chunk z of
        Inl e \<Rightarrow> Inl e
      | Inr (d, z1) \<Rightarrow>
          (case decode_map chunks z1 of
             Inl e \<Rightarrow> Inl e
           | Inr (ds, z2) \<Rightarrow> Inr (d # ds, z2)))"

definition exports_decode :: "buffer \<Rightarrow> 'a zone_scheme \<Rightarrow> error + (decoded list \<times> 'a zone_scheme)" where
  "exports_decode data z =
     (case decode_map (split data) z of
        Inl e \<Rightarrow> Inl e
      | Inr (ds, z1) \<Rightarrow> Inr (filter (\<lambda>d. \<not> incomplete d) ds, z1))"

section \<open>The connection handlers\<close>

text \<open>
  A string is kept as its UTF-8 bytes, so \<open>buffer.toString()\<close> and \<open>Buffer.from(string)\<close>
  go from bytes to characters and back one to one.
\<close>

definition to_string :: "buffer \<Rightarrow> string" where
  "to_string b = map (\<lambda>x. char_of (unat x)) b"

definition from_string :: "string \<Rightarrow> buffer" where
  "from_string s = map (\<lambda>c. of_nat (of_char c)) s"

text \<open>
  What the handlers take from outside the repository: the projects directory of
  \<open>./config\<close>, the \<open>path\<close> functions, the colours of \<open>chalk\<close>, \<open>JSON.parse\<close> on the two
  payloads that are parsed (the fields \<open>uid\<close>, \<open>project\<close> and \<open>builder\<close> of the first, each
  \<open>undefined\<close> when missing; the truthiness of the properties of the second, \<open>None\<close>
  for \<open>null\<close>), the conversion of a text to a number (\<open>None\<close> is \<open>NaN\<close>), and the MD5
  digest.
\<close>

record env =
  projectsDir :: string
  path_resolve :: "string list \<Rightarrow> string"
  path_join :: "string \<Rightarrow> string \<Rightarrow> string"
  path_relative :: "string \<Rightarrow> string \<Rightarrow> string"
  chalk :: "string \<Rightarrow> string \<Rightarrow> string"
  JSON_parse_init :: "string \<Rightarrow> error + (string option \<times> string option \<times> string option)"
  JSON_parse_ignore :: "string \<Rightarrow> error + (string \<Rightarrow> bool) option"
  Number :: "string \<Rightarrow> int option"
  md5 :: "buffer \<Rightarrow> buffer"

text \<open>
  A promise is a number; its state is kept in the connection. The callback that
  \<open>fileCover\<close> is given is absent, the \<open>resolve\<close> of a promise, or the function of
  \<open>fileSync\<close> that calls \<open>socket.checked()\<close> and then \<open>resolve\<close>.
\<close>

datatype pstate = Pending | Fulfilled | Rejected

datatype callback = NoCallback | Resolve nat | CheckedThenResolve nat

text \<open>
  The operations that are started and end later, each with what its callback closes
  over, and how they end. \<open>Promise.all(...).then(...)\<close> waits for a list of promises with
  one of two reactions.
\<close>

datatype task =
    ReadFile_fileCheck string string buffer
  | DirCheck_fileCover string buffer bool callback
  | WriteFile_fileCover string buffer bool callback
  | Npm_load string string nat bool
  | Npm_install string string nat bool
  | Unlink string
  | Builder_dev string string
  | Builder_build string string
  | ReadFile_build string string string nat
  | Write_flush nat

datatype outcome = Failed | Done | Data buffer | Files "string list"

datatype reaction = CheckOff | BuildDone

text \<open>
  The socket object is the zone of the codec with the properties that \<open>init\<close> and the
  handlers set (\<open>None\<close> is \<open>undefined\<close>; \<open>checked\<close> holds the variable \<open>total\<close> of the closure
  that \<open>fileCheckCallBack\<close> installs). The connection adds the states of the promises,
  the pending \<open>Promise.all\<close>, the operations under way and the bytes written so far.
\<close>

record socket = zone +
  uid :: "string option"
  project :: "string option"
  builder :: "string option"
  sync :: "nat list option"
  checked :: "int option option"
  console :: bool
  closed :: "nat option"
  distIgnore :: "(string \<Rightarrow> bool) option"

record world = socket +
  promises :: "pstate list"
  waiting :: "(nat list \<times> reaction) list"
  pending :: "task list"
  out :: "buffer list"

definition then_do :: "error + 'a \<Rightarrow> ('a \<Rightarrow> error + 'b) \<Rightarrow> error + 'b" where
  "then_do r f = (case r of Inl e \<Rightarrow> Inl e | Inr x \<Rightarrow> f x)"

text \<open>\<open>new Promise(...)\<close>, \<open>resolve\<close> and \<open>reject\<close>; a settled promise stays as it is.\<close>

definition new_promise :: "'a world_scheme \<Rightarrow> nat \<times> 'a world_scheme" where
  "new_promise w = (length (promises w), w\<lparr>promises := promises w @ [Pending]\<rparr>)"

definition settle :: "nat \<Rightarrow> pstate \<Rightarrow> 'a world_scheme \<Rightarrow> 'a world_scheme" where
  "settle p st w =
     (if p < length (promises w) \<and> promises w ! p = Pending
      then w\<lparr>promises := (promises w)[p := st]\<rparr> else w)"

definition start :: "task \<Rightarrow> 'a world_scheme \<Rightarrow> 'a world_scheme" where
  "start t w = w\<lparr>pending := pending w @ [t]\<rparr>"

text \<open>
  \<open>socket.write(chunk)\<close>: the bytes of a Buffer are written; anything else, as the empty
  object that \<open>encode\<close> returns above the cap, is refused with a \<open>TypeError\<close>.
\<close>

definition socket_write :: "error + encoded \<Rightarrow> 'a world_scheme \<Rightarrow> error + 'a world_scheme" where
  "socket_write chunk w =
     (case chunk of
        Inl e \<Rightarrow> Inl e
      | Inr EmptyObject \<Rightarrow> Inl TypeError
      | Inr (Bytes b) \<Rightarrow> Inr (w\<lparr>out := out w @ [b]\<rparr>))"

text \<open>utils.js, \<open>clientConsole\<close>: \<open>socket.console\<close> is a function once \<open>init\<close> has run.\<close>

definition clientConsole :: "string \<Rightarrow> 'a world_scheme \<Rightarrow> error + 'a world_scheme" where
  "clientConsole info w =
     socket_write (encode (Some SERVER_CONSOLE) (Some (from_string info)) None) w"

definition socket_console :: "string \<Rightarrow> 'a world_scheme \<Rightarrow> error + 'a world_scheme" where
  "socket_console info w = (if console w then clientConsole info w else Inl TypeError)"

text \<open>
  utils.js, \<open>relativeToAbsolute\<close>: \<open>path.posix.resolve\<close> raises a \<open>TypeError\<close> on an argument
  that is not a string, as \<open>socket.uid\<close> and \<open>socket.project\<close> before \<open>init\<close>.
\<close>

definition relativeToAbsolute :: "env \<Rightarrow> 'a world_scheme \<Rightarrow> string \<Rightarrow> error + string" where
  "relativeToAbsolute E w relative =
     (case (uid w, project w) of
        (Some u, Some p) \<Rightarrow> Inr (path_resolve E [projectsDir E, u, p, relative])
      | _ \<Rightarrow> Inl TypeError)"

definition init ::
  "env \<Rightarrow> string option \<times> string option \<times> string option \<Rightarrow> 'a world_scheme
     \<Rightarrow> error + 'a world_scheme" where
  "init E info w =
     (case info of (u, p, b) \<Rightarrow>
        (let (c, w1) = new_promise w;
             w2 = w1\<lparr>uid := u, project := p, builder := b, cache := Some [], sync := Some [],
                     checked := None, console := True, closed := Some c\<rparr>
         in then_do (socket_write (encode (Some SERVER_INIT_DONE) None None) w2)
              (socket_console (chalk E ''green'' ''> Connection is initialized.''))))"

text \<open>
  The closure that \<open>fileCheckCallBack\<close> installs: \<open>(total -= 1) === 0\<close>, and then
  \<open>Promise.all(socket.sync)\<close> with the check-off reaction. \<open>Promise.all(undefined)\<close> is
  rejected at once, so that nothing waits.
\<close>

definition socket_checked :: "'a world_scheme \<Rightarrow> error + 'a world_scheme" where
  "socket_checked w =
     (case checked w of
        None \<Rightarrow> Inl TypeError
      | Some total0 \<Rightarrow>
          (let total1 = map_option (\<lambda>n. n - 1) total0;
               w1 = w\<lparr>checked := Some total1\<rparr>
           in if total1 = Some 0
              then (case sync w1 of
                      None \<Rightarrow> Inr w1
                    | Some ps \<Rightarrow> Inr (w1\<lparr>waiting := waiting w1 @ [(ps, CheckOff)]\<rparr>))
              else Inr w1))"

definition fileCheckCallBack :: "'a world_scheme \<Rightarrow> int option \<Rightarrow> error + 'a world_scheme" where
  "fileCheckCallBack w total0 = Inr (w\<lparr>checked := Some total0\<rparr>)"






text \<open>\<open>fileCover\<close> up to the call of \<open>dirCheck\<close>, and its two callbacks.\<close>

definition fileCover ::
  "env \<Rightarrow> 'a world_scheme \<Rightarrow> string \<Rightarrow> buffer \<Rightarrow> callback \<Rightarrow> error + 'a world_scheme" where
  "fileCover E w filepath content cb =
     (let isPackageJson = (filepath = ''package.json'')
      in then_do (relativeToAbsolute E w filepath)
           (\<lambda>abspath. Inr (start (DirCheck_fileCover abspath content isPackageJson cb) w)))"



definition fileDelete :: "env \<Rightarrow> 'a world_scheme \<Rightarrow> string \<Rightarrow> error + 'a world_scheme" where
  "fileDelete E w filepath =
     then_do (relativeToAbsolute E w filepath) (\<lambda>abspath. Inr (start (Unlink abspath) w))"

definition fileCheck :: "env \<Rightarrow> 'a world_scheme \<Rightarrow> string \<Rightarrow> buffer \<Rightarrow> error + 'a world_scheme" where
  "fileCheck E w filepath info =
     then_do (relativeToAbsolute E w filepath)
       (\<lambda>abspath. Inr (start (ReadFile_fileCheck abspath filepath info) w))"

definition fileCheck_readFile ::
  "env \<Rightarrow> 'a world_scheme \<Rightarrow> string \<Rightarrow> buffer \<Rightarrow> outcome \<Rightarrow> error + 'a world_scheme" where
  "fileCheck_readFile E w filepath info r =
     (case r of
        Data file \<Rightarrow>
          (if info \<noteq> md5 E file
           then socket_write (encode (Some SERVER_FILE_UPDATE) None (Some (from_string filepath))) w
           else socket_checked w)
      | _ \<Rightarrow> socket_write (encode (Some SERVER_FILE_UPDATE) None (Some (from_string filepath))) w)"

text \<open>
  \<open>fileSync\<close>: \<open>socket.sync.push\<close> is looked up first; the executor of the promise runs
  \<open>fileCover\<close>, and an exception in an executor rejects the promise.
\<close>

definition fileSync :: "env \<Rightarrow> 'a world_scheme \<Rightarrow> string \<Rightarrow> buffer \<Rightarrow> error + 'a world_scheme" where
  "fileSync E w filepath content =
     (let isPackageJson = (filepath = ''package.json'')
      in case sync w of
           None \<Rightarrow> Inl TypeError
         | Some ps \<Rightarrow>
             (let (p, w1) = new_promise w;
                  cb = (if \<not> isPackageJson then Resolve p else CheckedThenResolve p);
                  w2 = (case fileCover E w1 filepath content cb of
                          Inl e \<Rightarrow> settle p Rejected w1
                        | Inr w' \<Rightarrow> w');
                  w3 = w2\<lparr>sync := Some (ps @ [p])\<rparr>
              in if \<not> isPackageJson then socket_checked w3 else Inr w3))"

text \<open>\<open>development\<close> and \<open>build\<close>: \<open>require\<close> of something that is not a string raises.\<close>

definition development :: "env \<Rightarrow> 'a world_scheme \<Rightarrow> error + 'a world_scheme" where
  "development E w =
     (case builder w of
        None \<Rightarrow> Inl RequireError
      | Some b \<Rightarrow>
          then_do (relativeToAbsolute E w []) (\<lambda>root. Inr (start (Builder_dev b root) w)))"


definition build :: "env \<Rightarrow> 'a world_scheme \<Rightarrow> error + 'a world_scheme" where
  "build E w =
     then_do (relativeToAbsolute E w [])
       (\<lambda>root. case builder w of
                  None \<Rightarrow> Inl RequireError
                | Some b \<Rightarrow> Inr (start (Builder_build b root) w))"





text \<open>\<open>handle\<close>: the switch on the type of a decoded frame.\<close>

definition handle :: "env \<Rightarrow> 'a world_scheme \<Rightarrow> decoded \<Rightarrow> error + 'a world_scheme" where
  "handle E w info =
     (case info of
        Frame type content note \<Rightarrow>
          if type = Some CLIENT_INIT
          then then_do (JSON_parse_init E (to_string content)) (\<lambda>i. init E i w)
          else if type = Some CLIENT_FILE_CHANGE
          then fileCover E w (to_string note) content NoCallback
          else if type = Some CLIENT_FILE_DELETE then fileDelete E w (to_string note)
          else if type = Some CLIENT_FILE_CHECK then fileCheck E w (to_string note) content
          else if type = Some CLIENT_FILE_SYNC then fileSync E w (to_string note) content
          else if type = Some CLIENT_NUMBER_OF_CHECK_FILES
          then fileCheckCallBack w (Number E (to_string content))
          else if type = Some CLIENT_DEVELOPMENT then development E w
          else if type = Some CLIENT_SYNC_FILES_MD5
          then then_do (JSON_parse_ignore E (to_string content))
                 (\<lambda>ignore. Inr (w\<lparr>distIgnore := ignore\<rparr>))
          else if type = Some CLIENT_BUILD then build E w
          else Inr w
      | _ \<Rightarrow> Inr w)"












text \<open>A connection before any chunk: a socket with none of the properties.\<close>

definition fresh :: world where
  "fresh = \<lparr>cache = None, uid = None, project = None, builder = None, sync = None,
            checked = None, console = False, closed = None, distIgnore = None,
            promises = [], waiting = [], pending = [], out = []\<rparr>"

section \<open>Notions used to state and prove the properties\<close>

text \<open>The value of a string of hexadecimal digits, and the strings that are nothing else.\<close>

definition hv :: "string \<Rightarrow> nat" where
  "hv s = foldl (\<lambda>acc c. 16 * acc + the (hex_value c)) 0 s"

definition hexstr :: "string \<Rightarrow> bool" where
  "hexstr s = (\<forall>c \<in> set s. hex_value c \<noteq> None)"

text \<open>The six digit text \<open>encode\<close> makes of a length.\<close>

definition length_x16 :: "nat \<Rightarrow> string" where
  "length_x16 len = zeroFillBuffers (toString_radix 16 len) 6"

text \<open>The bytes waiting in a zone: \<open>zone.cache || Buffer.from('')\<close>.\<close>

definition zone_bytes :: "'a zone_scheme \<Rightarrow> buffer" where
  "zone_bytes z = (case cache z of Some c \<Rightarrow> c | None \<Rightarrow> [])"

text \<open>
  What \<open>decode\<close> reads from three length bytes: each byte gives one hexadecimal digit
  when it is below 16 and two otherwise, and the digits are read as one number.
\<close>

definition hexlen :: "byte \<Rightarrow> nat" where
  "hexlen b = length (toString_radix 16 (unat b))"

definition decoded_length :: "byte \<Rightarrow> byte \<Rightarrow> byte \<Rightarrow> nat" where
  "decoded_length b0 b1 b2 = (unat b0 * 16 ^ hexlen b1 + unat b1) * 16 ^ hexlen b2 + unat b2"

text \<open>The big-endian value of three length bytes, and the three bytes of a length.\<close>

definition be24 :: "byte \<Rightarrow> byte \<Rightarrow> byte \<Rightarrow> nat" where
  "be24 b0 b1 b2 = (unat b0 * 256 + unat b1) * 256 + unat b2"

definition length_bytes :: "nat \<Rightarrow> buffer" where
  "length_bytes len = [of_nat (len div 65536), of_nat (len div 256), of_nat len]"

text \<open>The bytes of a frame within the cap, as \<open>encode\<close> lays them out.\<close>

definition frame_bytes :: "buffer \<Rightarrow> buffer \<Rightarrow> buffer \<Rightarrow> buffer" where
  "frame_bytes sig content note =
     START @ length_bytes (12 + length note + length content) @ sig @ note @ BOUNDARY @ content @ END"


text \<open>
  A frame as a triple of type code, content and note, and the bytes that are a valid
  encoding of it: what \<open>encode\<close> returns, with no end marker followed by a start marker
  inside, and no boundary marker inside the note.
\<close>

type_synonym frame = "byte \<times> buffer \<times> buffer"

definition valid_frame :: "frame \<Rightarrow> buffer \<Rightarrow> bool" where
  "valid_frame f b =
     (case f of (t, content, note) \<Rightarrow>
        encode (Some [t]) (Some content) (Some note) = Inr (Bytes b)
        \<and> indexOf b JOINT = None \<and> indexOf note BOUNDARY = None)"

definition frame_of :: "frame \<Rightarrow> decoded" where
  "frame_of f = (case f of (t, content, note) \<Rightarrow> Frame (Some t) content note)"

text \<open>
  A position in the stream of the frames \<open>bs\<close> where a chunk may end: between two frames,
  or inside a frame at least three bytes from both ends and not right after bytes equal
  to the end marker.
\<close>

fun safe_cut :: "buffer list \<Rightarrow> nat \<Rightarrow> bool" where
  "safe_cut [] c = (c = 0)"
| "safe_cut (b # bs) c =
     (if c = 0 then True
      else if c < length b then 3 \<le> c \<and> c + 3 \<le> length b \<and> \<not> suffix END (take c b)
      else safe_cut bs (c - length b))"

text \<open>The positions in the stream where the chunks end.\<close>

fun cut_positions :: "nat \<Rightarrow> buffer list \<Rightarrow> nat list" where
  "cut_positions pos [] = []"
| "cut_positions pos (c # cs) = (pos + length c) # cut_positions (pos + length c) cs"

text \<open>
  The data handler of a connection, \<open>data => signal.decode(data, socket)\<close>, on the chunks
  of a stream one after the other, the socket being the zone.
\<close>

fun decode_chunks :: "buffer list \<Rightarrow> 'a zone_scheme \<Rightarrow> error + (decoded list \<times> 'a zone_scheme)" where
  "decode_chunks [] z = Inr ([], z)"
| "decode_chunks (c # cs) z =
     (case exports_decode c z of
        Inl e \<Rightarrow> Inl e
      | Inr (ds, z1) \<Rightarrow>
          (case decode_chunks cs z1 of
             Inl e \<Rightarrow> Inl e
           | Inr (ds', z2) \<Rightarrow> Inr (ds @ ds', z2)))"

text \<open>How many of the frames \<open>bs\<close> end within the first \<open>k\<close> bytes of their stream.\<close>

fun completed :: "buffer list \<Rightarrow> nat \<Rightarrow> nat" where
  "completed [] k = 0"
| "completed (b # bs) k = (if length b \<le> k then Suc (completed bs (k - length b)) else 0)"



text \<open>
  An environment and a connection to evaluate the handlers on: the socket as \<open>init\<close>
  leaves it for the identity \<open>u\<close>, \<open>p\<close>, \<open>b\<close>, with nothing written yet.
\<close>

definition example_env :: env where
  "example_env = \<lparr>projectsDir = ''srv'',
      path_resolve = (\<lambda>xs. concat (map (\<lambda>x. CHR ''/'' # x) (filter (\<lambda>x. x \<noteq> []) xs))),
      path_join = (\<lambda>a b. a @ CHR ''/'' # b),
      path_relative = (\<lambda>a b. drop (Suc (length a)) b),
      chalk = (\<lambda>colour text. text),
      JSON_parse_init = (\<lambda>s. Inr (Some ''u'', Some ''p'', Some ''b'')),
      JSON_parse_ignore = (\<lambda>s. Inr (Some (\<lambda>h. h = ''H''))),
      Number = (\<lambda>s. Some (int (length s))),
      md5 = (\<lambda>b. take 1 b)\<rparr>"

definition active :: world where
  "active = fresh\<lparr>cache := Some [], uid := Some ''u'', project := Some ''p'', builder := Some ''b'',
              sync := Some [], console := True, closed := Some 0, promises := [Pending]\<rparr>"

section \<open>The codec: auxiliary facts\<close>

lemma zeroFill_eq: "zeroFillBuffers s n = replicate (n - length s) (CHR ''0'') @ s"
proof (induction s n rule: zeroFillBuffers.induct)
  case (1 content len)
  show ?case
  proof (cases "length content < len")
    case True
    then have "len - length content = Suc (len - Suc (length content))" by simp
    with 1 True show ?thesis
      by (subst zeroFillBuffers.simps) (simp add: replicate_app_Cons_same)
  next
    case False
    then show ?thesis by (subst zeroFillBuffers.simps) simp
  qed
qed

lemma hex_value_digit:
  assumes "d < 16" shows "hex_value (digit_char d) = Some d"
proof -
  from assms have "d = 0 \<or> d = 1 \<or> d = 2 \<or> d = 3 \<or> d = 4 \<or> d = 5 \<or> d = 6 \<or> d = 7 \<or> d = 8
      \<or> d = 9 \<or> d = 10 \<or> d = 11 \<or> d = 12 \<or> d = 13 \<or> d = 14 \<or> d = 15"
    by presburger
  then show ?thesis
    by (elim disjE) (simp_all add: hex_value_def digit_char_def)
qed

lemma parseInt16_hexstr: "hexstr s \<Longrightarrow> s \<noteq> [] \<Longrightarrow> parseInt16 s = Some (hv s)"
  by (simp add: parseInt16_def hexstr_def hv_def takeWhile_eq_all_conv[THEN iffD2])

lemma foldl_hv_acc:
  "foldl (\<lambda>acc c. 16 * acc + the (hex_value c)) a s = a * 16 ^ length s + hv s"
proof (induction s arbitrary: a)
  case Nil
  then show ?case by (simp add: hv_def)
next
  case (Cons x xs)
  have "hv (x # xs) = the (hex_value x) * 16 ^ length xs + hv xs"
    using Cons[of "the (hex_value x)"] by (simp add: hv_def)
  then show ?case
    using Cons[of "16 * a + the (hex_value x)"] by (simp add: algebra_simps)
qed

lemma hv_append: "hv (s @ t) = hv s * 16 ^ length t + hv t"
proof -
  have "hv (s @ t) = foldl (\<lambda>acc c. 16 * acc + the (hex_value c)) (hv s) t"
    by (simp add: hv_def)
  then show ?thesis by (simp add: foldl_hv_acc)
qed

lemma hv_single: "d < 16 \<Longrightarrow> hv [digit_char d] = d"
  by (simp add: hv_def hex_value_digit)

lemma toString16_small: "n < 16 \<Longrightarrow> toString_radix 16 n = [digit_char n]"
  by (subst toString_radix.simps) simp

lemma toString16_step:
  "16 \<le> n \<Longrightarrow> toString_radix 16 n = toString_radix 16 (n div 16) @ [digit_char (n mod 16)]"
  by (subst toString_radix.simps) simp

lemma toString16_props:
  "hexstr (toString_radix 16 n) \<and> toString_radix 16 n \<noteq> [] \<and> hv (toString_radix 16 n) = n"
proof (induction n rule: less_induct)
  case (less n)
  show ?case
  proof (cases "n < 16")
    case True
    then show ?thesis
      by (simp add: toString16_small hexstr_def hex_value_digit hv_single)
  next
    case False
    then have "n div 16 < n" by simp
    from less[OF this] False show ?thesis
      by (simp add: toString16_step hexstr_def hex_value_digit hv_append hv_single)
  qed
qed

lemma toString16_length:
  "n < 16 ^ k \<Longrightarrow> 0 < k \<Longrightarrow> length (toString_radix 16 n) \<le> k"
proof (induction k arbitrary: n)
  case 0
  then show ?case by simp
next
  case (Suc k)
  show ?case
  proof (cases "n < 16")
    case True
    then show ?thesis by (simp add: toString16_small)
  next
    case False
    then have "0 < k" using Suc.prems by (cases k) auto
    moreover have "n div 16 < 16 ^ k" using Suc.prems
      by (simp add: less_mult_imp_div_less mult.commute)
    ultimately have "length (toString_radix 16 (n div 16)) \<le> k" by (rule Suc.IH[rotated])
    with False show ?thesis by (simp add: toString16_step)
  qed
qed

lemma hex_value_less: "hex_value c = Some v \<Longrightarrow> v < 16"
  by (auto simp: hex_value_def Let_def split: if_splits)

lemma hv_bound: "hexstr s \<Longrightarrow> hv s < 16 ^ length s"
proof (induction s rule: rev_induct)
  case Nil
  then show ?case by (simp add: hv_def)
next
  case (snoc x xs)
  then have "hexstr xs" and x: "hex_value x \<noteq> None" by (auto simp: hexstr_def)
  with snoc have "hv xs < 16 ^ length xs" by simp
  moreover from x have "the (hex_value x) < 16" by (auto dest: hex_value_less)
  moreover have "hv [x] = the (hex_value x)" by (simp add: hv_def)
  ultimately show ?case by (simp add: hv_append)
qed

lemma hv_zeros: "hv (replicate k (CHR ''0'')) = 0"
proof (induction k)
  case 0
  then show ?case by (simp add: hv_def)
next
  case (Suc k)
  have "hv [CHR ''0''] = 0" by (simp add: hv_def hex_value_def)
  moreover have "replicate (Suc k) (CHR ''0'') = replicate k (CHR ''0'') @ [CHR ''0'']"
    by (simp add: replicate_append_same)
  ultimately have "hv (replicate (Suc k) (CHR ''0'')) = hv (replicate k (CHR ''0'')) * 16 + 0"
    by (simp only: hv_append) simp
  then show ?case using Suc by simp
qed

lemma hexstr_zeros: "hexstr (replicate k (CHR ''0''))"
  by (simp add: hexstr_def hex_value_def)

lemma hexstr_append: "hexstr (s @ t) = (hexstr s \<and> hexstr t)"
  by (auto simp: hexstr_def)

lemma length_x16_props:
  assumes "len < 16 ^ 6"
  shows "length (length_x16 len) = 6" "hexstr (length_x16 len)" "hv (length_x16 len) = len"
proof -
  have l: "length (toString_radix 16 len) \<le> 6"
    using assms by (intro toString16_length) simp_all
  then show "length (length_x16 len) = 6"
    by (simp add: length_x16_def zeroFill_eq)
  show "hexstr (length_x16 len)"
    by (simp add: length_x16_def zeroFill_eq hexstr_append hexstr_zeros toString16_props)
  show "hv (length_x16 len) = len"
    by (simp add: length_x16_def zeroFill_eq hv_append hv_zeros toString16_props)
qed

lemma hexstr_take: "hexstr s \<Longrightarrow> hexstr (take n s)"
  by (auto simp: hexstr_def dest: in_set_takeD)

lemma hexstr_drop: "hexstr s \<Longrightarrow> hexstr (drop n s)"
  by (auto simp: hexstr_def dest: in_set_dropD)

lemma split3:
  fixes a b c n :: nat
  assumes "c < 256" "b < 256" "n = (a * 256 + b) * 256 + c"
  shows "n mod 256 = c" "n div 256 mod 256 = b" "n div 65536 = a"
proof -
  define m where "m = b + 256 * a"
  have n: "n = c + 256 * m" using assms(3) by (simp add: m_def)
  show "n mod 256 = c" using assms(1) by (simp add: n)
  have d: "n div 256 = m" using assms(1) by (simp add: n)
  show "n div 256 mod 256 = b" using assms(2) by (simp add: d m_def)
  have "n div 256 div 256 = a" using assms(2) by (simp add: d m_def)
  then show "n div 65536 = a" by (simp add: div_mult2_eq[symmetric])
qed

lemma length_buf_bytes:
  assumes "len < 16 ^ 6"
  shows "to_uint8 (parseInt16 (slice (length_x16 len) 0 2)) = of_nat (len div 65536)"
    and "to_uint8 (parseInt16 (slice (length_x16 len) 2 4)) = of_nat (len div 256)"
    and "to_uint8 (parseInt16 (slice_from (length_x16 len) 4)) = of_nat len"
proof -
  let ?s = "length_x16 len"
  let ?a = "take 2 ?s" and ?b = "take 2 (drop 2 ?s)" and ?c = "drop 4 ?s"
  note p = length_x16_props[OF assms]
  have sl: "slice ?s 0 2 = ?a" "slice ?s 2 4 = ?b" "slice_from ?s 4 = ?c"
    using p(1) by (simp_all add: slice_def slice_from_def clamp_index_def)
  have la: "length ?a = 2" and lb: "length ?b = 2" and lc: "length ?c = 2"
    using p(1) by simp_all
  have ha: "hexstr ?a" and hb: "hexstr ?b" and hc: "hexstr ?c"
    using p(2) by (simp_all add: hexstr_take hexstr_drop)
  have "?s = ?a @ ?b @ ?c"
    by (metis append_take_drop_id drop_drop numeral_Bit0 )
  then have "hv ?s = hv (?a @ ?b @ ?c)" by simp
  then have eq: "len = (hv ?a * 256 + hv ?b) * 256 + hv ?c"
    using p(3) la lb lc by (simp add: hv_append algebra_simps)
  have ba: "hv ?a < 256" using hv_bound[OF ha] la by simp
  have bb: "hv ?b < 256" using hv_bound[OF hb] lb by simp
  have bc: "hv ?c < 256" using hv_bound[OF hc] lc by simp
  have va: "hv ?a = len div 65536" and vb: "hv ?b = len div 256 mod 256"
    and vc: "hv ?c = len mod 256"
    using split3[OF bc bb eq] by simp_all
  have ne: "?a \<noteq> []" "?b \<noteq> []" "?c \<noteq> []" using la lb lc by auto
  have m: "(of_nat (n mod 256) :: byte) = of_nat n" for n
    by (simp add: word_of_nat_eq_iff take_bit_eq_mod)
  show "to_uint8 (parseInt16 (slice ?s 0 2)) = of_nat (len div 65536)"
    by (simp add: sl parseInt16_hexstr[OF ha ne(1)] to_uint8_def va)
  show "to_uint8 (parseInt16 (slice ?s 2 4)) = of_nat (len div 256)"
    by (simp add: sl parseInt16_hexstr[OF hb ne(2)] to_uint8_def vb m)
  show "to_uint8 (parseInt16 (slice_from ?s 4)) = of_nat len"
    by (simp add: sl parseInt16_hexstr[OF hc ne(3)] to_uint8_def vc m)
qed

lemma indexOf_None_iff:
  "indexOf xs n = None \<longleftrightarrow> (\<forall>i \<le> length xs. \<not> prefix n (drop i xs))"
proof (induction xs)
  case Nil
  then show ?case by auto
next
  case (Cons x xs)
  have "(\<forall>i \<le> Suc (length xs). \<not> prefix n (drop i (x # xs))) \<longleftrightarrow>
        (\<not> prefix n (x # xs) \<and> (\<forall>i \<le> length xs. \<not> prefix n (drop i xs)))"
    (is "?L \<longleftrightarrow> ?R")
  proof
    assume l: ?L
    from l[rule_format, of 0] have "\<not> prefix n (x # xs)" by simp
    moreover have "\<not> prefix n (drop i xs)" if "i \<le> length xs" for i
      using l[rule_format, of "Suc i"] that by simp
    ultimately show ?R by blast
  next
    assume r: ?R
    show ?L
    proof (intro allI impI)
      fix i assume "i \<le> Suc (length xs)"
      then show "\<not> prefix n (drop i (x # xs))"
        using r by (cases i) simp_all
    qed
  qed
  then show ?case using Cons by simp
qed

lemma indexOf_Some_iff:
  "indexOf xs n = Some i \<longleftrightarrow>
     (i \<le> length xs \<and> prefix n (drop i xs) \<and> (\<forall>j < i. \<not> prefix n (drop j xs)))"
proof (induction xs arbitrary: i)
  case Nil
  then show ?case by auto
next
  case (Cons x xs)
  show ?case
  proof (cases "prefix n (x # xs)")
    case True
    then show ?thesis by (cases i) auto
  next
    case False
    show ?thesis
    proof (cases i)
      case 0
      with False show ?thesis by simp
    next
      case (Suc k)
      have "(\<forall>j < Suc k. \<not> prefix n (drop j (x # xs))) \<longleftrightarrow> (\<forall>j < k. \<not> prefix n (drop j xs))"
        using False by (auto simp: less_Suc_eq_0_disj)
      then show ?thesis using False Suc Cons[of k] by auto
    qed
  qed
qed

lemma hexlen_byte: "hexlen b = (if unat b < 16 then 1 else 2)"
proof (cases "unat b < 16")
  case True
  then show ?thesis by (simp add: hexlen_def toString16_small)
next
  case False
  have "unat b < 2 ^ LENGTH(8)" by (rule unsigned_less)
  then have "unat b < 256" by simp
  then have "unat b div 16 < 16" by simp
  with False show ?thesis
    by (simp add: hexlen_def toString16_step toString16_small)
qed

lemma reduce_hex3:
  "reduce_hex [b0, b1, b2] = Inr v \<Longrightarrow> parseInt_val v = Some (decoded_length b0 b1 b2)"
proof -
  let ?h = "\<lambda>b. toString_radix 16 (unat b)"
  assume "reduce_hex [b0, b1, b2] = Inr v"
  then have v: "v = Str (?h b0 @ ?h b1 @ ?h b2)"
    by (simp add: reduce_hex_def)
  have hs: "hexstr (?h b0 @ ?h b1 @ ?h b2)" and ne: "?h b0 @ ?h b1 @ ?h b2 \<noteq> []"
    by (simp_all add: hexstr_append toString16_props)
  show ?thesis
    by (simp add: v parseInt16_hexstr[OF hs ne] hv_append toString16_props
        decoded_length_def hexlen_def algebra_simps power_add)
qed

lemma decoded_length_le:
  "decoded_length b0 b1 b2 \<le> (unat b0 * 256 + unat b1) * 256 + unat b2"
proof -
  have a: "(16::nat) ^ hexlen b1 \<le> 256" and b: "(16::nat) ^ hexlen b2 \<le> 256"
    by (simp_all add: hexlen_byte)
  have "unat b0 * 16 ^ hexlen b1 + unat b1 \<le> unat b0 * 256 + unat b1"
    using a by simp
  then have "(unat b0 * 16 ^ hexlen b1 + unat b1) * 16 ^ hexlen b2
      \<le> (unat b0 * 256 + unat b1) * 256"
    using b by (rule mult_le_mono)
  then show ?thesis by (simp add: decoded_length_def)
qed

lemma START_slice: "START = slice c 0 3 \<longleftrightarrow> prefix START c"
proof -
  have t: "slice xs 0 3 = take 3 xs" for xs :: buffer
    by (cases "3 \<le> length xs") (simp_all add: slice_def clamp_index_def min_def)
  show ?thesis
  proof
    assume "START = slice c 0 3"
    then have "START = take 3 c" by (simp add: t)
    then show "prefix START c" by (metis take_is_prefix)
  next
    assume "prefix START c"
    then obtain zs where "c = START @ zs" by (auto simp: prefix_def)
    then show "START = slice c 0 3" by (simp add: t START_def)
  qed
qed

lemma END_slice: "END = slice_from c (int (length c) - 3) \<longleftrightarrow> suffix END c"
proof (cases "3 \<le> length c")
  case True
  then have d: "slice_from c (int (length c) - 3) = drop (length c - 3) c"
    by (simp add: slice_from_def clamp_index_def nat_diff_distrib')
  show ?thesis
  proof
    assume "END = slice_from c (int (length c) - 3)"
    then have "END = drop (length c - 3) c" by (simp add: d)
    then show "suffix END c" by (metis suffix_drop)
  next
    assume "suffix END c"
    then obtain zs where "c = zs @ END" by (auto simp: suffix_def)
    then show "END = slice_from c (int (length c) - 3)"
      by (simp add: slice_from_def clamp_index_def END_def)
  qed
next
  case False
  then have "length (slice_from c (int (length c) - 3)) < 3"
    by (simp add: slice_from_def)
  then have "length END \<noteq> length (slice_from c (int (length c) - 3))"
    by (simp add: END_def)
  then have "END \<noteq> slice_from c (int (length c) - 3)" by auto
  moreover have "\<not> suffix END c" using False by (auto simp: suffix_def END_def)
  ultimately show ?thesis by simp
qed

lemma decode_unfold:
  "decode data z =
     (let cache0 = zone_bytes z @ data; z1 = z\<lparr>cache := Some cache0\<rparr>
      in if \<not> (prefix START cache0 \<and> suffix END cache0)
         then Inr (IncompleteData data, z1)
         else
           (case reduce_hex (slice cache0 3 6) of
              Inl e \<Rightarrow> Inl e
            | Inr v \<Rightarrow>
                 if oversize (parseInt_val v) then Inr (IncompleteCache cache0, z1)
                 else
                   (let body = slice cache0 7 (int (length cache0) - 3);
                        index = index_int (indexOf body BOUNDARY)
                    in Inr (Frame (nth_opt cache0 6) (slice_from body (index + 2))
                              (slice body 0 index), z\<lparr>cache := Some []\<rparr>))))"
proof -
  have lb: "int (length BOUNDARY) = 2" by (simp add: BOUNDARY_def)
  show ?thesis
    unfolding decode_def Let_def START_slice END_slice zone_bytes_def lb
    by (simp split: sum.split)
qed

lemma decode_incomplete:
  assumes "\<not> (prefix START (zone_bytes z @ data) \<and> suffix END (zone_bytes z @ data))"
  shows "decode data z = Inr (IncompleteData data, z\<lparr>cache := Some (zone_bytes z @ data)\<rparr>)"
  using assms by (simp add: decode_unfold)

lemma frame_parts:
  fixes body :: buffer and b0 b1 b2 t :: byte
  defines "c \<equiv> START @ [b0, b1, b2] @ t # body @ END"
  shows "prefix START c" "suffix END c" "nth_opt c 6 = Some t" "slice c 3 6 = [b0, b1, b2]"
    "slice c 7 (int (length c) - 3) = body"
proof -
  show "prefix START c" by (simp add: c_def)
  show "suffix END c" by (simp add: c_def suffix_def)
  show "nth_opt c 6 = Some t" by (simp add: c_def nth_opt_def START_def)
  show "slice c 3 6 = [b0, b1, b2]"
    by (simp add: c_def slice_def clamp_index_def START_def END_def)
  have "length c = 10 + length body" by (simp add: c_def START_def END_def)
  then show "slice c 7 (int (length c) - 3) = body"
    by (simp add: c_def slice_def clamp_index_def START_def END_def)
qed

lemma decode_complete:
  assumes c: "zone_bytes z @ data = START @ [b0, b1, b2] @ t # body @ END"
    and len: "decoded_length b0 b1 b2 \<le> MAX_INFO_SIZE"
  shows "decode data z =
     Inr (Frame (Some t)
            (slice_from body (index_int (indexOf body BOUNDARY) + 2))
            (slice body 0 (index_int (indexOf body BOUNDARY))),
          z\<lparr>cache := Some []\<rparr>)"
proof -
  obtain v where v: "reduce_hex [b0, b1, b2] = Inr v"
    by (simp add: reduce_hex_def)
  note fp = frame_parts[of b0 b1 b2 t body]
  have "\<not> oversize (parseInt_val v)"
    using reduce_hex3[OF v] len by (simp add: oversize_def)
  then show ?thesis
    using fp v by (simp add: decode_unfold c Let_def)
qed

lemma decode_oversize:
  assumes "prefix START (zone_bytes z @ data)" and "suffix END (zone_bytes z @ data)"
    and "reduce_hex (slice (zone_bytes z @ data) 3 6) = Inr v"
    and "oversize (parseInt_val v)"
  shows "decode data z =
     Inr (IncompleteCache (zone_bytes z @ data), z\<lparr>cache := Some (zone_bytes z @ data)\<rparr>)"
  using assms by (simp add: decode_unfold Let_def)

lemma MAX_INFO_SIZE_value: "MAX_INFO_SIZE = 5242880"
  by (simp add: MAX_INFO_SIZE_def MAX_MB_def)

lemma encode_unfold:
  "encode (Some sig) (Some content) (Some note) =
     (if MAX_INFO_SIZE < 12 + length note + length content then Inr EmptyObject
      else Inr (Bytes (START @
        [to_uint8 (parseInt16 (slice (length_x16 (12 + length note + length content)) 0 2)),
         to_uint8 (parseInt16 (slice (length_x16 (12 + length note + length content)) 2 4)),
         to_uint8 (parseInt16 (slice_from (length_x16 (12 + length note + length content)) 4))]
        @ sig @ note @ BOUNDARY @ content @ END)))"
proof -
  have l: "length START + 3 + 1 + length note + length BOUNDARY + length content + length END
      = 12 + length note + length content"
    by (simp add: START_def BOUNDARY_def END_def)
  show ?thesis
    by (simp only: encode_def Let_def l option.case length_x16_def)
qed

lemma encode_within_cap:
  assumes "12 + length note + length content \<le> MAX_INFO_SIZE"
  shows "encode (Some sig) (Some content) (Some note) = Inr (Bytes (frame_bytes sig content note))"
proof -
  let ?len = "12 + length note + length content"
  have "?len < 16 ^ 6" using assms by (simp add: MAX_INFO_SIZE_value)
  note lb = length_buf_bytes[OF this]
  have "\<not> MAX_INFO_SIZE < ?len" using assms by simp
  then show ?thesis
    by (simp only: encode_unfold lb frame_bytes_def length_bytes_def if_False)
qed

lemma encode_over_cap:
  assumes "MAX_INFO_SIZE < 12 + length note + length content"
  shows "encode (Some sig) (Some content) (Some note) = Inr EmptyObject"
  using assms by (simp only: encode_unfold if_True)

lemma unat_byte_of_nat: "unat (of_nat n :: byte) = n mod 256"
  by (simp add: unat_of_nat)

lemma decoded_length_bytes:
  assumes "len \<le> MAX_INFO_SIZE"
  shows "decoded_length (of_nat (len div 65536)) (of_nat (len div 256)) (of_nat len) \<le> len"
proof -
  have lt: "len < 16777216" using assms by (simp add: MAX_INFO_SIZE_value)
  define a where "a = len div 65536"
  have "a < 256" using lt by (simp add: a_def)
  have "len mod (256 * 256) = 256 * (len div 256 mod 256) + len mod 256"
    by (rule mod_mult2_eq)
  moreover have "len = 65536 * a + len mod 65536" by (simp add: a_def)
  ultimately have "(a * 256 + len div 256 mod 256) * 256 + len mod 256 = len"
    by simp
  moreover have "unat (of_nat (len div 65536) :: byte) = a"
    using \<open>a < 256\<close> by (simp add: unat_byte_of_nat a_def)
  ultimately show ?thesis
    using decoded_length_le[of "of_nat (len div 65536)" "of_nat (len div 256)" "of_nat len"]
    by (simp only: unat_byte_of_nat)
qed

lemma split_no_joint: "indexOf data JOINT = None \<Longrightarrow> split data = [data]"
  by (simp add: split_def cut.simps)

lemma indexOf_boundary:
  assumes "indexOf note BOUNDARY = None"
  shows "indexOf (note @ BOUNDARY @ content) BOUNDARY = Some (length note)"
proof -
  have "\<not> prefix BOUNDARY (drop j (note @ BOUNDARY @ content))" if j: "j < length note" for j
  proof
    assume p: "prefix BOUNDARY (drop j (note @ BOUNDARY @ content))"
    from j obtain x xs where d: "drop j note = x # xs"
      by (cases "drop j note") auto
    from assms j have np: "\<not> prefix BOUNDARY (drop j note)"
      by (simp add: indexOf_None_iff)
    show False
    proof (cases xs)
      case Nil
      with p d j show False by (simp add: BOUNDARY_def)
    next
      case (Cons y ys)
      with p d j np show False by (simp add: BOUNDARY_def)
    qed
  qed
  then show ?thesis by (simp add: indexOf_Some_iff)
qed

lemma body_split:
  assumes "indexOf note BOUNDARY = None"
  shows "slice (note @ BOUNDARY @ content) 0 (index_int (indexOf (note @ BOUNDARY @ content) BOUNDARY)) = note"
    and "slice_from (note @ BOUNDARY @ content) (index_int (indexOf (note @ BOUNDARY @ content) BOUNDARY) + 2) = content"
proof -
  have i: "index_int (indexOf (note @ BOUNDARY @ content) BOUNDARY) = int (length note)"
    by (simp add: indexOf_boundary[OF assms] index_int_def)
  have l: "length BOUNDARY = 2" by (simp add: BOUNDARY_def)
  show "slice (note @ BOUNDARY @ content) 0 (index_int (indexOf (note @ BOUNDARY @ content) BOUNDARY)) = note"
    unfolding i by (simp add: slice_def clamp_index_def)
  show "slice_from (note @ BOUNDARY @ content) (index_int (indexOf (note @ BOUNDARY @ content) BOUNDARY) + 2) = content"
    unfolding i using l by (simp add: slice_from_def clamp_index_def nat_add_distrib)
qed

lemma frame_bytes_shape:
  "frame_bytes [t] content note =
     START @ [of_nat ((12 + length note + length content) div 65536),
              of_nat ((12 + length note + length content) div 256),
              of_nat (12 + length note + length content)] @ t # (note @ BOUNDARY @ content) @ END"
  by (simp add: frame_bytes_def length_bytes_def)

lemma decode_frame_bytes:
  assumes cap: "12 + length note + length content \<le> MAX_INFO_SIZE"
    and nb: "indexOf note BOUNDARY = None"
    and c: "zone_bytes z @ data = frame_bytes [t] content note"
  shows "decode data z = Inr (Frame (Some t) content note, z\<lparr>cache := Some []\<rparr>)"
proof -
  have "decoded_length (of_nat ((12 + length note + length content) div 65536))
          (of_nat ((12 + length note + length content) div 256))
          (of_nat (12 + length note + length content)) \<le> MAX_INFO_SIZE"
    using decoded_length_bytes[OF cap] cap by (rule le_trans)
  from decode_complete[OF c[unfolded frame_bytes_shape] this]
  show ?thesis by (simp only: body_split[OF nb])
qed

lemmas codec_eval = decode_unfold zone_bytes_def reduce_hex_def toString_radix.simps
  parseInt16_def hex_value_def digit_char_def slice_def slice_from_def clamp_index_def
  nth_opt_def oversize_def MAX_INFO_SIZE_value index_int_def suffix_to_prefix
  START_def END_def BOUNDARY_def JOINT_def Let_def

lemma cut_None: "indexOf data JOINT = None \<Longrightarrow> cut data result = result @ [data]"
  by (simp add: cut.simps)

lemma cut_Some:
  "indexOf data JOINT = Some i \<Longrightarrow>
     cut data result = cut (drop (i + 3) data) (result @ [take (i + 3) data])"
proof -
  have n: "nat (int i + 3) = i + 3" by simp
  assume "indexOf data JOINT = Some i"
  then show ?thesis
    by (subst cut.simps)
      (simp add: slice_def slice_from_def clamp_index_def END_def Let_def min_def n del: nat_int_add)
qed

lemma decoded_length_eq_iff:
  "decoded_length b0 b1 b2 = be24 b0 b1 b2 \<longleftrightarrow>
     (16 \<le> unat b1 \<or> b0 = 0) \<and> (16 \<le> unat b2 \<or> (b0 = 0 \<and> b1 = 0))"
proof -
  have z: "b = 0 \<longleftrightarrow> unat b = 0" for b :: byte
    by (simp add: unat_eq_0)
  show ?thesis
    unfolding decoded_length_def be24_def hexlen_byte z
    by (cases "unat b1 < 16"; cases "unat b2 < 16") auto
qed

lemma markers_length:
  assumes "prefix START c" and "suffix END c"
  shows "6 \<le> length c"
proof -
  from assms(1) obtain zs where c: "c = START @ zs" by (auto simp: prefix_def)
  from assms(2) have e: "drop (length c - 3) c = END"
    by (auto simp: suffix_def END_def)
  show ?thesis
  proof (cases zs)
    case Nil
    with c e show ?thesis by (simp add: START_def END_def)
  next
    case (Cons x xs)
    note c1 = this
    show ?thesis
    proof (cases xs)
      case Nil
      with c c1 e show ?thesis by (simp add: START_def END_def)
    next
      case (Cons y ys)
      note c2 = this
      show ?thesis
      proof (cases ys)
        case Nil
        with c c1 c2 e show ?thesis by (simp add: START_def END_def)
      next
        case (Cons w ws)
        with c c1 c2 show ?thesis by (simp add: START_def)
      qed
    qed
  qed
qed

lemma decode_never_raises: "decode data z \<noteq> Inl e"
proof (cases "prefix START (zone_bytes z @ data) \<and> suffix END (zone_bytes z @ data)")
  case False
  then show ?thesis by (simp add: decode_incomplete)
next
  case True
  define c where "c = zone_bytes z @ data"
  from True have "6 \<le> length c" unfolding c_def by (intro markers_length) simp_all
  then have "slice c 3 6 \<noteq> []"
    by (simp add: slice_def clamp_index_def min_def)
  then have "slice (zone_bytes z @ data) 3 6 \<noteq> []" by (simp add: c_def)
  then obtain v where "reduce_hex (slice (zone_bytes z @ data) 3 6) = Inr v"
    by (cases "slice (zone_bytes z @ data) 3 6") (simp_all add: reduce_hex_def)
  then show ?thesis using True by (simp add: decode_unfold Let_def)
qed

lemma exports_decode_single:
  "indexOf data JOINT = None \<Longrightarrow> decode data z = Inr (d, z1) \<Longrightarrow>
     exports_decode data z = Inr (if incomplete d then [] else [d], z1)"
  by (simp add: exports_decode_def split_no_joint)

lemma frame_bytes_length:
  "length (frame_bytes [t] content note) = 12 + length note + length content"
  by (simp add: frame_bytes_def length_bytes_def START_def END_def BOUNDARY_def)

lemma frame_bytes_length_field:
  "slice (frame_bytes [t] content note) 3 6 = length_bytes (12 + length note + length content)"
  unfolding frame_bytes_shape length_bytes_def by (rule frame_parts(4))

lemma sublist_trans: "sublist xs ys \<Longrightarrow> sublist ys zs \<Longrightarrow> sublist xs zs"
proof -
  assume "sublist xs ys" "sublist ys zs"
  then obtain a b c d where "ys = a @ xs @ b" "zs = c @ ys @ d"
    by (auto simp: sublist_def)
  then have "zs = (c @ a) @ xs @ (b @ d)" by simp
  then show ?thesis unfolding sublist_def by blast
qed

lemma indexOf_None_sublist: "indexOf xs n = None \<longleftrightarrow> \<not> sublist n xs"
proof -
  have "sublist n xs \<longleftrightarrow> (\<exists>i \<le> length xs. prefix n (drop i xs))"
  proof
    assume "sublist n xs"
    then obtain ps ss where "xs = ps @ n @ ss" by (auto simp: sublist_def)
    then have "length ps \<le> length xs \<and> prefix n (drop (length ps) xs)" by simp
    then show "\<exists>i \<le> length xs. prefix n (drop i xs)" by blast
  next
    assume "\<exists>i \<le> length xs. prefix n (drop i xs)"
    then obtain i where "prefix n (drop i xs)" by blast
    then have "sublist n (drop i xs)" by (rule prefix_imp_sublist)
    then show "sublist n xs" using sublist_drop[of i xs] by (rule sublist_trans)
  qed
  then show ?thesis by (simp add: indexOf_None_iff)
qed

lemma joint_free_sublist:
  "indexOf b JOINT = None \<Longrightarrow> sublist c b \<Longrightarrow> indexOf c JOINT = None"
  unfolding indexOf_None_sublist using sublist_trans by blast

lemma prefix_nth: "prefix xs ys \<Longrightarrow> i < length xs \<Longrightarrow> ys ! i = xs ! i"
  by (auto simp: prefix_def nth_append)

lemma indexOf_joint_append:
  assumes free: "indexOf r JOINT = None" and e: "suffix END r" and s: "prefix START c'"
  shows "indexOf (r @ c') JOINT = Some (length r - 3)"
proof -
  from e obtain r0 where r: "r = r0 @ END" by (auto simp: suffix_def)
  from s obtain c'' where c: "c' = START @ c''" by (auto simp: prefix_def)
  have l: "length r - 3 = length r0" by (simp add: r END_def)
  have a: "prefix JOINT (drop (length r0) (r @ c'))"
    by (simp add: r c JOINT_def)
  have b: "\<not> prefix JOINT (drop j (r @ c'))" if j: "j < length r0" for j
  proof
    assume p: "prefix JOINT (drop j (r @ c'))"
    define u where "u = drop j r0"
    have d: "drop j (r @ c') = u @ END @ c'" and dr: "drop j r = u @ END"
      using j by (simp_all add: r u_def)
    have un: "u \<noteq> []" using j by (simp add: u_def)
    show False
    proof (cases "3 \<le> length u")
      case True
      then have "length JOINT \<le> length (u @ END)" by (simp add: JOINT_def START_def END_def)
      with p have "prefix JOINT (u @ END)"
        unfolding d by (metis append.assoc prefix_length_prefix prefix_append prefixI)
      then have "prefix JOINT (drop j r)" by (simp add: dr)
      moreover have "j \<le> length r" using j by (simp add: r)
      ultimately show False using free by (auto simp: indexOf_None_iff)
    next
      case False
      moreover have "length u \<noteq> 0" using un by simp
      ultimately have m: "length u = 1 \<or> length u = 2" by arith
      have "length u < length JOINT" using m by (auto simp: JOINT_def START_def END_def)
      from prefix_nth[OF p[unfolded d] this]
      have "(u @ END @ c') ! length u = JOINT ! length u" .
      then have "END ! 0 = JOINT ! length u" by (simp add: nth_append END_def)
      with m show False by (auto simp: JOINT_def END_def START_def)
    qed
  qed
  have "length r0 \<le> length (r @ c')" by (simp add: r)
  with a b show ?thesis
    unfolding indexOf_Some_iff l by blast
qed

lemma cut_acc: "cut data result = result @ cut data []"
proof (induction "length data" arbitrary: data result rule: less_induct)
  case less
  show ?case
  proof (cases "indexOf data JOINT")
    case None
    then show ?thesis by (simp add: cut_None)
  next
    case (Some i)
    then have "prefix JOINT (drop i data)" by (simp add: indexOf_Some_iff)
    then have "drop i data \<noteq> []" by (auto simp: JOINT_def END_def)
    then have sh: "length (drop (i + 3) data) < length data" by simp
    have "cut data result = cut (drop (i + 3) data) (result @ [take (i + 3) data])"
      by (rule cut_Some[OF Some])
    also have "\<dots> = (result @ [take (i + 3) data]) @ cut (drop (i + 3) data) []"
      by (rule less[OF sh])
    also have "\<dots> = result @ cut (drop (i + 3) data) ([] @ [take (i + 3) data])"
      using less[OF sh, of "[] @ [take (i + 3) data]"] by simp
    also have "\<dots> = result @ cut data []"
      by (simp only: cut_Some[OF Some, of "[]"])
    finally show ?thesis .
  qed
qed

lemma frame_bytes_markers:
  "prefix START (frame_bytes sig content note)" "suffix END (frame_bytes sig content note)"
  by (simp_all add: frame_bytes_def suffix_def)

lemma valid_frame_bytes:
  assumes "valid_frame (t, content, note) b"
  shows "12 + length note + length content \<le> MAX_INFO_SIZE" "b = frame_bytes [t] content note"
proof -
  from assms have e: "encode (Some [t]) (Some content) (Some note) = Inr (Bytes b)"
    by (simp add: valid_frame_def)
  then show cap: "12 + length note + length content \<le> MAX_INFO_SIZE"
    by (simp add: encode_unfold split: if_splits)
  with e show "b = frame_bytes [t] content note" by (simp add: encode_within_cap)
qed

lemma valid_frame_facts:
  assumes "valid_frame f b"
  shows "12 \<le> length b" "prefix START b" "suffix END b" "indexOf b JOINT = None"
    and "zone_bytes z @ d = b \<Longrightarrow> decode d z = Inr (frame_of f, z\<lparr>cache := Some []\<rparr>)"
proof -
  obtain t content nt where f: "f = (t, content, nt)" by (cases f) auto
  note vb = valid_frame_bytes[OF assms[unfolded f]]
  show "12 \<le> length b" by (simp add: vb(2) frame_bytes_length)
  show "prefix START b" "suffix END b" by (simp_all add: vb(2) frame_bytes_markers)
  show "indexOf b JOINT = None" using assms by (simp add: valid_frame_def f)
  have nb: "indexOf nt BOUNDARY = None" using assms by (simp add: valid_frame_def f)
  show "decode d z = Inr (frame_of f, z\<lparr>cache := Some []\<rparr>)" if "zone_bytes z @ d = b"
    using decode_frame_bytes[OF vb(1) nb, of z d t] that by (simp add: vb(2) frame_of_def f)
qed

lemma split_joint:
  assumes "indexOf r JOINT = None" and "suffix END r" and "prefix START rest"
  shows "split (r @ rest) = r # split rest"
proof -
  have l: "3 \<le> length r" using assms(2) by (auto simp: suffix_def END_def)
  have i: "indexOf (r @ rest) JOINT = Some (length r - 3)"
    by (rule indexOf_joint_append[OF assms])
  have "cut (r @ rest) [] = cut rest ([] @ [r])"
    using cut_Some[OF i, of "[]"] l by simp
  also have "\<dots> = [r] @ cut rest []" using cut_acc[of rest "[r]"] by simp
  finally show ?thesis by (simp add: split_def)
qed

lemma suffix_of_append:
  "suffix xs (ys @ zs) \<Longrightarrow> length xs \<le> length zs \<Longrightarrow> suffix xs zs"
  by (auto simp: suffix_append)

lemma completed_zero:
  "\<forall>b \<in> set bs. b \<noteq> [] \<Longrightarrow> completed bs 0 = 0"
  by (cases bs) auto

lemma valid_frames_nonempty:
  "list_all2 valid_frame fs bs \<Longrightarrow> \<forall>b \<in> set bs. b \<noteq> []"
proof
  fix b assume a: "list_all2 valid_frame fs bs" "b \<in> set bs"
  then obtain f where "valid_frame f b"
    by (metis in_set_conv_nth list_all2_conv_all_nth)
  from valid_frame_facts(1)[OF this] show "b \<noteq> []" by auto
qed

lemma zone_bytes_update: "zone_bytes (z\<lparr>cache := Some x\<rparr>) = x"
  by (simp add: zone_bytes_def)

lemma prefix_of_append:
  assumes "prefix xs (ys @ zs)" and "length xs \<le> length ys"
  shows "prefix xs ys"
proof -
  from assms(1) have "prefix xs ys \<or> (\<exists>us. xs = ys @ us \<and> prefix us zs)"
    by (simp add: prefix_append)
  then show ?thesis
  proof
    assume "\<exists>us. xs = ys @ us \<and> prefix us zs"
    then obtain us where "xs = ys @ us" by blast
    with assms(2) show ?thesis by simp
  qed
qed

lemma chunk_step:
  assumes "list_all2 valid_frame fs bs"
    and "prefix (zone_bytes z @ c) (concat bs)"
    and "safe_cut bs (length (zone_bytes z))"
    and "safe_cut bs (length (zone_bytes z) + length c)"
    and "zone_bytes z = [] \<or> length (zone_bytes z) < length (hd bs)"
  shows "\<exists>ds z1. decode_map (split c) z = Inr (ds, z1)
      \<and> filter (\<lambda>d. \<not> incomplete d) ds
          = map frame_of (take (completed bs (length (zone_bytes z) + length c)) fs)
      \<and> zone_bytes z1
          = drop (length (concat (take (completed bs (length (zone_bytes z) + length c)) bs)))
              (zone_bytes z @ c)
      \<and> (zone_bytes z1 = [] \<or> length (zone_bytes z1)
            < length (hd (drop (completed bs (length (zone_bytes z) + length c)) bs)))"
  using assms
proof (induction bs arbitrary: fs z c rule: list.induct)
  case Nil
  then have c: "c = []" and p: "zone_bytes z = []" by simp_all
  have "decode [] z = Inr (IncompleteData [], z\<lparr>cache := Some []\<rparr>)"
    using decode_incomplete[of z "[]"] by (simp add: p START_def)
  moreover have "split ([] :: buffer) = [[]]"
    by (rule split_no_joint) (simp add: JOINT_def START_def)
  ultimately have "decode_map (split c) z = Inr ([IncompleteData []], z\<lparr>cache := Some []\<rparr>)"
    by (simp add: c)
  then show ?case by (simp add: zone_bytes_update c p)
next
  case (Cons b bs')
  from Cons.prems(1) obtain f fs' where fs: "fs = f # fs'" and vf: "valid_frame f b"
    and vfs: "list_all2 valid_frame fs' bs'"
    by (auto simp: list_all2_Cons2)
  note bf = valid_frame_facts[OF vf]
  define p where "p = zone_bytes z"
  define k where "k = length p + length c"
  have pre: "prefix (p @ c) (b @ concat bs')" using Cons.prems(2) by (simp add: p_def)
  have sp: "safe_cut (b # bs') (length p)" and sk: "safe_cut (b # bs') k"
    using Cons.prems(3,4) by (simp_all add: p_def k_def)
  have plt: "length p < length b"
    using Cons.prems(5) bf(1) by (auto simp: p_def)
  show ?case
  proof (cases "k < length b")
    case True
    from pre True have "prefix (p @ c) b"
      by (intro prefix_of_append[of _ b "concat bs'"]) (simp_all add: k_def)
    then obtain s where b: "b = p @ c @ s" by (auto simp: prefix_def)
    then have pc: "p @ c = take k b" by (simp add: k_def)
    have "sublist c b" unfolding b by (rule sublist_appendI)
    then have "indexOf c JOINT = None" by (rule joint_free_sublist[OF bf(4)])
    then have sc: "split c = [c]" by (rule split_no_joint)
    have "\<not> (prefix START (p @ c) \<and> suffix END (p @ c))"
    proof (cases "k = 0")
      case True
      then show ?thesis by (simp add: k_def START_def)
    next
      case False
      with sk \<open>k < length b\<close> have "\<not> suffix END (take k b)" by simp
      then show ?thesis by (simp add: pc)
    qed
    then have "decode c z = Inr (IncompleteData c, z\<lparr>cache := Some (p @ c)\<rparr>)"
      unfolding p_def by (rule decode_incomplete)
    then have "decode_map (split c) z = Inr ([IncompleteData c], z\<lparr>cache := Some (p @ c)\<rparr>)"
      by (simp add: sc)
    moreover have "completed (b # bs') k = 0" using True by simp
    ultimately show ?thesis
      using True unfolding p_def[symmetric] k_def[symmetric]
      by (simp add: zone_bytes_update k_def)
  next
    case False
    define r where "r = drop (length p) b"
    from pre have "prefix p (b @ concat bs')" by (rule append_prefixD)
    with plt have "prefix p b" by (intro prefix_of_append[of _ b "concat bs'"]) simp_all
    then have pr: "p @ r = b" by (auto simp: prefix_def r_def)
    define rest where "rest = drop (length r) c"
    have lr: "length p + length r = length b" using pr by (metis length_append)
    have cr: "c = r @ rest"
    proof -
      from pre obtain s where "b @ concat bs' = (p @ c) @ s"
        by (auto simp: prefix_def)
      then have "p @ (r @ concat bs') = p @ (c @ s)" by (simp add: pr[symmetric])
      then have e: "r @ concat bs' = c @ s" by (simp only: same_append_eq)
      have le: "length r \<le> length c" using False lr by (simp add: k_def)
      have "take (length r) (r @ concat bs') = r" by simp
      then have "take (length r) (c @ s) = r" by (simp only: e)
      then have "take (length r) c = r" using le by simp
      then show ?thesis unfolding rest_def by (metis append_take_drop_id)
    qed
    have prest: "prefix rest (concat bs')"
      using pre by (simp add: cr pr[symmetric])
    have lrest: "length rest = k - length b"
      using lr by (simp add: cr k_def)
    have r3: "3 \<le> length r"
    proof (cases "p = []")
      case True
      then show ?thesis using bf(1) by (simp add: r_def)
    next
      case False
      with sp plt have "length p + 3 \<le> length b" by simp
      then show ?thesis using lr by simp
    qed
    have er: "suffix END r"
      using bf(3) r3 unfolding pr[symmetric]
      by (intro suffix_of_append[of END p r]) (simp_all add: END_def)
    have "sublist r b" unfolding pr[symmetric] by (rule sublist_append_leftI)
    then have fr: "indexOf r JOINT = None" by (rule joint_free_sublist[OF bf(4)])
    define z' where "z' = z\<lparr>cache := Some []\<rparr>"
    have dr: "decode r z = Inr (frame_of f, z')"
      unfolding z'_def by (rule bf(5)) (simp add: p_def[symmetric] pr)
    have zb': "zone_bytes z' = []" by (simp add: z'_def zone_bytes_update)
    have sk': "safe_cut bs' (length rest)"
      using sk False bf(1) by (simp add: lrest)
    have ck: "completed (b # bs') k = Suc (completed bs' (length rest))"
      using False by (simp add: lrest)
    show ?thesis
    proof (cases "rest = []")
      case True
      then have "split c = [r]" using fr by (simp add: cr split_no_joint)
      then have "decode_map (split c) z = Inr ([frame_of f], z')"
        using dr by simp
      moreover have "completed bs' 0 = 0"
        by (rule completed_zero) (rule valid_frames_nonempty[OF vfs])
      moreover have "\<not> incomplete (frame_of f)" by (cases f) (simp add: frame_of_def)
      ultimately show ?thesis
        unfolding p_def[symmetric] k_def[symmetric] ck
        using True zb' by (simp add: fs cr pr)
    next
      case False
      with sk' obtain b' bs'' where bs': "bs' = b' # bs''" by (cases bs') auto
      from vfs bs' obtain f' where vf': "valid_frame f' b'" by (auto simp: list_all2_Cons2)
      note bf' = valid_frame_facts[OF vf']
      have "3 \<le> length rest"
      proof (cases "length rest < length b'")
        case True
        with sk' False show ?thesis by (simp add: bs')
      next
        case False
        then show ?thesis using bf'(1) by simp
      qed
      moreover have "take 3 (concat bs') = START"
        using bf'(2) by (auto simp: bs' prefix_def START_def)
      ultimately have "take 3 rest = START"
        using prest by (auto simp: prefix_def)
      then have srest: "prefix START rest" by (metis take_is_prefix)
      have sc: "split c = r # split rest"
        unfolding cr by (rule split_joint[OF fr er srest])
      have "\<exists>ds z1. decode_map (split rest) z' = Inr (ds, z1)
        \<and> filter (\<lambda>d. \<not> incomplete d) ds
            = map frame_of (take (completed bs' (length (zone_bytes z') + length rest)) fs')
        \<and> zone_bytes z1
            = drop (length (concat (take (completed bs' (length (zone_bytes z') + length rest)) bs')))
                (zone_bytes z' @ rest)
        \<and> (zone_bytes z1 = [] \<or> length (zone_bytes z1)
              < length (hd (drop (completed bs' (length (zone_bytes z') + length rest)) bs')))"
        using vfs prest sk' by (intro Cons.IH) (simp_all add: zb' bs')
      then obtain ds z1 where ih: "decode_map (split rest) z' = Inr (ds, z1)"
        "filter (\<lambda>d. \<not> incomplete d) ds = map frame_of (take (completed bs' (length rest)) fs')"
        "zone_bytes z1 = drop (length (concat (take (completed bs' (length rest)) bs'))) rest"
        "zone_bytes z1 = [] \<or> length (zone_bytes z1)
              < length (hd (drop (completed bs' (length rest)) bs'))"
        by (auto simp: zb')
      have "decode_map (split c) z = Inr (frame_of f # ds, z1)"
        using dr ih(1) by (simp add: sc)
      moreover have "\<not> incomplete (frame_of f)" by (cases f) (simp add: frame_of_def)
      moreover have "p @ c = b @ rest" by (simp add: cr pr[symmetric])
      ultimately show ?thesis
        unfolding p_def[symmetric] k_def[symmetric] ck
        using ih(2,3,4) by (simp add: fs)
    qed
  qed
qed

lemma completed_bounds:
  "completed bs k \<le> length bs \<and> length (concat (take (completed bs k) bs)) \<le> k"
proof (induction bs arbitrary: k)
  case Nil
  then show ?case by simp
next
  case (Cons a bs)
  show ?case
  proof (cases "length a \<le> k")
    case True
    define m where "m = length (concat (take (completed bs (k - length a)) bs))"
    from Cons[of "k - length a"] have "completed bs (k - length a) \<le> length bs"
      and "m \<le> k - length a" by (simp_all add: m_def)
    moreover have "length (concat (take (completed (a # bs) k) (a # bs))) = length a + m"
      using True by (simp add: m_def)
    ultimately show ?thesis using True by (simp del: length_concat)
  next
    case False
    then show ?thesis by simp
  qed
qed

lemma safe_cut_shift:
  assumes "\<forall>b \<in> set bs. b \<noteq> []"
  shows "safe_cut bs (length (concat (take n bs)) + x) = safe_cut (drop n bs) x"
  using assms
proof (induction n arbitrary: bs)
  case 0
  then show ?case by simp
next
  case (Suc n)
  show ?case
  proof (cases bs)
    case Nil
    then show ?thesis by simp
  next
    case (Cons b bs')
    with Suc.prems have "b \<noteq> []" and "\<forall>b \<in> set bs'. b \<noteq> []" by simp_all
    with Suc.IH[of bs'] show ?thesis by (simp add: Cons)
  qed
qed

lemma cut_positions_shift:
  "cut_positions (l + x) cs = map (\<lambda>q. l + q) (cut_positions x cs)"
  by (induction cs arbitrary: x) (simp_all add: add.assoc)

lemma safe_cut_end:
  "\<forall>b \<in> set bs. b \<noteq> [] \<Longrightarrow> safe_cut bs (length (concat bs))"
  using safe_cut_shift[of bs "length bs" 0] by simp

lemma completed_all:
  "\<forall>b \<in> set bs. b \<noteq> [] \<Longrightarrow> completed bs (length (concat bs)) = length bs"
  by (induction bs) auto

lemma exports_decode_step:
  "decode_map (split c) z = Inr (ds, z1) \<Longrightarrow>
     exports_decode c z = Inr (filter (\<lambda>d. \<not> incomplete d) ds, z1)"
  by (simp add: exports_decode_def)

lemma chunks_run:
  assumes "list_all2 valid_frame fs bs"
    and "zone_bytes z @ concat chunks = concat bs"
    and "safe_cut bs (length (zone_bytes z))"
    and "list_all (safe_cut bs) (cut_positions (length (zone_bytes z)) chunks)"
    and "zone_bytes z = [] \<or> length (zone_bytes z) < length (hd bs)"
  shows "\<exists>z'. decode_chunks chunks z = Inr (map frame_of fs, z')"
  using assms
proof (induction chunks arbitrary: fs bs z rule: list.induct)
  case Nil
  note ne = valid_frames_nonempty[OF Nil.prems(1)]
  have "bs = []"
  proof (rule ccontr)
    assume "bs \<noteq> []"
    then obtain b bs' where bs: "bs = b # bs'" by (cases bs) auto
    with ne have "b \<noteq> []" by simp
    moreover have "length (zone_bytes z) = length b + length (concat bs')"
      using Nil.prems(2) by (simp add: bs)
    ultimately show False using Nil.prems(5) by (auto simp: bs)
  qed
  with Nil.prems(1) show ?case by simp
next
  case (Cons c cs)
  note ne = valid_frames_nonempty[OF Cons.prems(1)]
  define p where "p = zone_bytes z"
  define n where "n = completed bs (length p + length c)"
  define L where "L = length (concat (take n bs))"
  have pre: "prefix (p @ c) (concat bs)"
    using Cons.prems(2)[symmetric] by (simp add: p_def prefix_def)
  have s1: "safe_cut bs (length p + length c)"
    and s2: "list_all (safe_cut bs) (cut_positions (length p + length c) cs)"
    using Cons.prems(4) by (simp_all add: p_def)
  from chunk_step[OF Cons.prems(1) pre[unfolded p_def] Cons.prems(3) s1[unfolded p_def] Cons.prems(5)]
  obtain ds z1 where st: "decode_map (split c) z = Inr (ds, z1)"
    "filter (\<lambda>d. \<not> incomplete d) ds = map frame_of (take n fs)"
    "zone_bytes z1 = drop L (p @ c)"
    "zone_bytes z1 = [] \<or> length (zone_bytes z1) < length (hd (drop n bs))"
    unfolding p_def[symmetric] n_def[symmetric] L_def[symmetric] by blast
  have ex: "exports_decode c z = Inr (map frame_of (take n fs), z1)"
    using exports_decode_step[OF st(1)] by (simp add: st(2))
  have Lle: "L \<le> length p + length c" and nle: "n \<le> length bs"
    using completed_bounds[of bs "length p + length c"] by (simp_all add: L_def n_def)
  have lz: "length (zone_bytes z1) = length p + length c - L" by (simp add: st(3))
  have a1: "list_all2 valid_frame (drop n fs) (drop n bs)"
    using Cons.prems(1) by (rule list_all2_dropI)
  have "(p @ c) @ concat cs = concat (take n bs) @ concat (drop n bs)"
    using Cons.prems(2) by (simp add: p_def concat_append[symmetric] del: concat_append)
  then have "drop L ((p @ c) @ concat cs) = concat (drop n bs)"
    by (simp add: L_def)
  then have a2: "zone_bytes z1 @ concat cs = concat (drop n bs)"
    using Lle by (simp add: st(3))
  have sh: "safe_cut bs (L + x) = safe_cut (drop n bs) x" for x
    unfolding L_def by (rule safe_cut_shift[OF ne])
  have a3: "safe_cut (drop n bs) (length (zone_bytes z1))"
    using s1 sh[of "length p + length c - L"] Lle by (simp add: lz)
  have "cut_positions (length p + length c) cs
      = map (\<lambda>q. L + q) (cut_positions (length (zone_bytes z1)) cs)"
    using cut_positions_shift[of L "length p + length c - L" cs] Lle by (simp add: lz)
  with s2 have a4: "list_all (safe_cut (drop n bs)) (cut_positions (length (zone_bytes z1)) cs)"
    by (simp add: list_all_iff sh)
  from Cons.IH[OF a1 a2 a3 a4 st(4)]
  obtain z' where "decode_chunks cs z1 = Inr (map frame_of (drop n fs), z')" by blast
  with ex have "decode_chunks (c # cs) z = Inr (map frame_of (take n fs) @ map frame_of (drop n fs), z')"
    by simp
  then show ?case by (simp add: map_append[symmetric] del: map_append)
qed

lemma one_call:
  assumes "list_all2 valid_frame fs bs" and "zone_bytes z = []"
  shows "\<exists>z'. exports_decode (concat bs) z = Inr (map frame_of fs, z')"
proof -
  note ne = valid_frames_nonempty[OF assms(1)]
  have l: "length fs = length bs" using assms(1) by (rule list_all2_lengthD)
  have s0: "safe_cut bs (length (zone_bytes z))"
    by (cases bs) (simp_all add: assms(2))
  have s1: "safe_cut bs (length (zone_bytes z) + length (concat bs))"
    using safe_cut_end[OF ne] by (simp add: assms(2))
  from chunk_step[OF assms(1) _ s0 s1] assms(2)
  obtain ds z1 where "decode_map (split (concat bs)) z = Inr (ds, z1)"
    "filter (\<lambda>d. \<not> incomplete d) ds = map frame_of fs"
    by (auto simp: completed_all[OF ne] l)
  then show ?thesis using exports_decode_step by fastforce
qed

lemma valid_frame_eval:
  "valid_frame (t, content, nt) b \<longleftrightarrow>
     12 + length nt + length content \<le> MAX_INFO_SIZE \<and> b = frame_bytes [t] content nt
     \<and> indexOf b JOINT = None \<and> indexOf nt BOUNDARY = None"
proof
  assume v: "valid_frame (t, content, nt) b"
  then show "12 + length nt + length content \<le> MAX_INFO_SIZE \<and> b = frame_bytes [t] content nt
     \<and> indexOf b JOINT = None \<and> indexOf nt BOUNDARY = None"
    using valid_frame_bytes[OF v] by (simp add: valid_frame_def)
next
  assume "12 + length nt + length content \<le> MAX_INFO_SIZE \<and> b = frame_bytes [t] content nt
     \<and> indexOf b JOINT = None \<and> indexOf nt BOUNDARY = None"
  then show "valid_frame (t, content, nt) b"
    by (auto simp: valid_frame_def encode_within_cap)
qed

section \<open>The connection handlers: auxiliary facts\<close>

lemma then_do_simps [simp]:
  "then_do (Inl e) f = Inl e" "then_do (Inr x) f = f x"
  by (simp_all add: then_do_def)

lemma new_promise_fields [simp]:
  "fst (new_promise w) = length (promises w)"
  "checked (snd (new_promise w)) = checked w"
  "sync (snd (new_promise w)) = sync w"
  "uid (snd (new_promise w)) = uid w"
  "project (snd (new_promise w)) = project w"
  "console (snd (new_promise w)) = console w"
  "distIgnore (snd (new_promise w)) = distIgnore w"
  "waiting (snd (new_promise w)) = waiting w"
  "pending (snd (new_promise w)) = pending w"
  "out (snd (new_promise w)) = out w"
  "promises (snd (new_promise w)) = promises w @ [Pending]"
  by (simp_all add: new_promise_def)

lemma settle_fields [simp]:
  "checked (settle p st w) = checked w"
  "sync (settle p st w) = sync w"
  "uid (settle p st w) = uid w"
  "project (settle p st w) = project w"
  "console (settle p st w) = console w"
  "distIgnore (settle p st w) = distIgnore w"
  "waiting (settle p st w) = waiting w"
  "pending (settle p st w) = pending w"
  "out (settle p st w) = out w"
  "length (promises (settle p st w)) = length (promises w)"
  by (simp_all add: settle_def)

lemma start_fields [simp]:
  "checked (start t w) = checked w"
  "sync (start t w) = sync w"
  "uid (start t w) = uid w"
  "project (start t w) = project w"
  "console (start t w) = console w"
  "distIgnore (start t w) = distIgnore w"
  "waiting (start t w) = waiting w"
  "pending (start t w) = pending w @ [t]"
  "out (start t w) = out w"
  "promises (start t w) = promises w"
  by (simp_all add: start_def)

lemma fileCover_fields:
  assumes "fileCover E w filepath content cb = Inr w1"
  shows "checked w1 = checked w" "sync w1 = sync w" "promises w1 = promises w"
    "waiting w1 = waiting w" "out w1 = out w"
  using assms by (auto simp: fileCover_def then_do_def Let_def split: sum.splits)

lemma socket_checked_eq:
  assumes "checked w = Some t"
  shows "socket_checked w =
     Inr (w\<lparr>checked := Some (map_option (\<lambda>n. n - 1) t),
            waiting := (if map_option (\<lambda>n. n - 1) t = Some 0
                        then (case sync w of None \<Rightarrow> waiting w
                              | Some ps \<Rightarrow> waiting w @ [(ps, CheckOff)])
                        else waiting w)\<rparr>)"
proof (cases "map_option (\<lambda>n. n - 1) t = Some 0")
  case True
  then show ?thesis
    using assms by (cases "sync w") (simp_all add: socket_checked_def Let_def)
next
  case False
  then show ?thesis
    using assms by (simp add: socket_checked_def Let_def)
qed

lemmas string_eval = to_string_def from_string_def char_of_def bit_0



lemma to_string_a: "to_string [0x61] = ''a''"
  by (simp add: string_eval)








section \<open>The codec: properties\<close>

text \<open>
  C1 (as amended). For every type code, content and note whose frame is within the cap,
  when the encoded frame holds no end marker followed by a start marker and the note
  holds no boundary marker, decoding the frame on an empty reassembly buffer gives
  exactly the frame with that type, content and note, and leaves the buffer empty.
\<close>

theorem round_trip_without_markers:
  assumes "encode (Some [t]) (Some content) (Some note) = Inr (Bytes bytes)"
    and "indexOf bytes JOINT = None"
    and "indexOf note BOUNDARY = None"
    and "zone_bytes z = []"
  shows "exports_decode bytes z = Inr ([Frame (Some t) content note], z\<lparr>cache := Some []\<rparr>)"
proof -
  have cap: "12 + length note + length content \<le> MAX_INFO_SIZE"
    using assms(1) by (simp add: encode_unfold split: if_splits)
  with assms(1) have b: "bytes = frame_bytes [t] content note"
    by (simp add: encode_within_cap)
  have "decode bytes z = Inr (Frame (Some t) content note, z\<lparr>cache := Some []\<rparr>)"
    by (rule decode_frame_bytes[OF cap assms(3)]) (simp add: assms(4) b)
  from exports_decode_single[OF assms(2) this] show ?thesis by simp
qed

theorem round_trip_without_markers_witness:
  "encode (Some [0x01]) (Some [0x68, 0x69]) (Some [0x61]) =
     Inr (Bytes [0x12, 0x23, 0x33, 0x00, 0x00, 0x0F, 0x01, 0x61, 0x10, 0x03, 0x68, 0x69, 0xAB, 0xCD, 0xEF])
   \<and> indexOf [0x12, 0x23, 0x33, 0x00, 0x00, 0x0F, 0x01, 0x61, 0x10, 0x03, 0x68, 0x69, 0xAB, 0xCD, 0xEF :: byte] JOINT = None
   \<and> indexOf [0x61 :: byte] BOUNDARY = None
   \<and> zone_bytes \<lparr>cache = None\<rparr> = []
   \<and> exports_decode [0x12, 0x23, 0x33, 0x00, 0x00, 0x0F, 0x01, 0x61, 0x10, 0x03, 0x68, 0x69, 0xAB, 0xCD, 0xEF]
         \<lparr>cache = None\<rparr>
       = Inr ([Frame (Some 0x01) [0x68, 0x69] [0x61]], \<lparr>cache = Some []\<rparr>)"
proof -
  let ?bytes = "[0x12, 0x23, 0x33, 0x00, 0x00, 0x0F, 0x01, 0x61, 0x10, 0x03, 0x68, 0x69, 0xAB, 0xCD, 0xEF] :: buffer"
  have e: "encode (Some [0x01]) (Some [0x68, 0x69]) (Some [0x61]) = Inr (Bytes ?bytes)"
    by (simp add: encode_within_cap MAX_INFO_SIZE_value frame_bytes_def length_bytes_def
        START_def END_def BOUNDARY_def)
  have j: "indexOf ?bytes JOINT = None" by (simp add: JOINT_def START_def END_def)
  have b: "indexOf [0x61 :: byte] BOUNDARY = None" by (simp add: BOUNDARY_def)
  have z: "zone_bytes \<lparr>cache = None\<rparr> = []" by (simp add: zone_bytes_def)
  from round_trip_without_markers[OF e j b z] e j b z show ?thesis by simp
qed

text \<open>
  C1 as stated fails. A content that holds the end marker followed by the start marker
  is cut in two by \<open>split\<close>: the first piece is decoded as a frame with an empty
  content, the second one stays in the buffer. A note that holds the boundary marker
  comes back empty, with the note's bytes at the head of the content.
\<close>

theorem round_trip_counterexample:
  "encode (Some [0x01]) (Some [0xAB, 0xCD, 0xEF, 0x12, 0x23, 0x33]) (Some []) =
     Inr (Bytes [0x12, 0x23, 0x33, 0x00, 0x00, 0x12, 0x01, 0x10, 0x03,
                 0xAB, 0xCD, 0xEF, 0x12, 0x23, 0x33, 0xAB, 0xCD, 0xEF])
   \<and> exports_decode [0x12, 0x23, 0x33, 0x00, 0x00, 0x12, 0x01, 0x10, 0x03,
                      0xAB, 0xCD, 0xEF, 0x12, 0x23, 0x33, 0xAB, 0xCD, 0xEF] \<lparr>cache = None\<rparr>
       = Inr ([Frame (Some 0x01) [] []], \<lparr>cache = Some [0x12, 0x23, 0x33, 0xAB, 0xCD, 0xEF]\<rparr>)
   \<and> encode (Some [0x01]) (Some [0x68]) (Some [0x10, 0x03]) =
     Inr (Bytes [0x12, 0x23, 0x33, 0x00, 0x00, 0x0F, 0x01, 0x10, 0x03, 0x10, 0x03, 0x68, 0xAB, 0xCD, 0xEF])
   \<and> exports_decode [0x12, 0x23, 0x33, 0x00, 0x00, 0x0F, 0x01, 0x10, 0x03, 0x10, 0x03, 0x68, 0xAB, 0xCD, 0xEF]
         \<lparr>cache = None\<rparr>
       = Inr ([Frame (Some 0x01) [0x10, 0x03, 0x68] []], \<lparr>cache = Some []\<rparr>)"
proof -
  let ?p1 = "[0x12, 0x23, 0x33, 0x00, 0x00, 0x12, 0x01, 0x10, 0x03, 0xAB, 0xCD, 0xEF] :: buffer"
  let ?p2 = "[0x12, 0x23, 0x33, 0xAB, 0xCD, 0xEF] :: buffer"
  let ?b2 = "[0x12, 0x23, 0x33, 0x00, 0x00, 0x0F, 0x01, 0x10, 0x03, 0x10, 0x03, 0x68, 0xAB, 0xCD, 0xEF] :: buffer"
  have e1: "encode (Some [0x01]) (Some [0xAB, 0xCD, 0xEF, 0x12, 0x23, 0x33]) (Some []) = Inr (Bytes (?p1 @ ?p2))"
    by (simp add: encode_within_cap MAX_INFO_SIZE_value frame_bytes_def length_bytes_def
        START_def END_def BOUNDARY_def)
  have i: "indexOf (?p1 @ ?p2) JOINT = Some 9" by (simp add: JOINT_def START_def END_def)
  have n: "indexOf ?p2 JOINT = None" by (simp add: JOINT_def START_def END_def)
  have s: "split (?p1 @ ?p2) = [?p1, ?p2]"
    using cut_Some[OF i, of "[]"] by (simp add: split_def cut_None[OF n])
  have d1: "decode ?p1 \<lparr>cache = None\<rparr> = Inr (Frame (Some 1) [] [], \<lparr>cache = Some []\<rparr>)"
    by (simp add: codec_eval)
  have d2: "decode ?p2 \<lparr>cache = Some []\<rparr> = Inr (IncompleteCache ?p2, \<lparr>cache = Some ?p2\<rparr>)"
    by (simp add: codec_eval)
  have x1: "exports_decode (?p1 @ ?p2) \<lparr>cache = None\<rparr>
      = Inr ([Frame (Some 0x01) [] []], \<lparr>cache = Some ?p2\<rparr>)"
    using s d1 d2 by (simp add: exports_decode_def)
  have e2: "encode (Some [0x01]) (Some [0x68]) (Some [0x10, 0x03]) = Inr (Bytes ?b2)"
    by (simp add: encode_within_cap MAX_INFO_SIZE_value frame_bytes_def length_bytes_def
        START_def END_def BOUNDARY_def)
  have n2: "indexOf ?b2 JOINT = None" by (simp add: JOINT_def START_def END_def)
  have d3: "decode ?b2 \<lparr>cache = None\<rparr> = Inr (Frame (Some 1) [0x10, 0x03, 0x68] [], \<lparr>cache = Some []\<rparr>)"
    by (simp add: codec_eval)
  have x2: "exports_decode ?b2 \<lparr>cache = None\<rparr>
      = Inr ([Frame (Some 0x01) [0x10, 0x03, 0x68] []], \<lparr>cache = Some []\<rparr>)"
    using exports_decode_single[OF n2 d3] by simp
  from e1 x1 e2 x2 show ?thesis by simp
qed

text \<open>
  C2 (as amended). For every sequence of valid frames (no end marker followed by a start
  marker inside a frame, no boundary marker inside a note), when the concatenated stream
  is delivered in chunks whose boundaries are all safe - a boundary falls between two
  frames, or inside a frame at least three bytes from both of its ends and not right
  after bytes equal to the end marker - decoding the chunks one call after the other on
  the same reassembly buffer gives the frames of the sequence, as decoding the whole
  stream in one call does.
\<close>

theorem chunking_invariance_safe_cuts:
  assumes "list_all2 valid_frame fs bs"
    and "concat chunks = concat bs"
    and "list_all (safe_cut bs) (cut_positions 0 chunks)"
    and "zone_bytes z = []"
  shows "map_sum id fst (decode_chunks chunks z) = Inr (map frame_of fs)
       \<and> map_sum id fst (exports_decode (concat chunks) z) = Inr (map frame_of fs)"
proof -
  have s0: "safe_cut bs (length (zone_bytes z))"
    by (cases bs) (simp_all add: assms(4))
  have "\<exists>z'. decode_chunks chunks z = Inr (map frame_of fs, z')"
    using assms s0 by (intro chunks_run[where bs = bs]) simp_all
  moreover have "\<exists>z'. exports_decode (concat chunks) z = Inr (map frame_of fs, z')"
    unfolding assms(2) by (rule one_call[OF assms(1,4)])
  ultimately show ?thesis by auto
qed

theorem chunking_invariance_safe_cuts_witness:
  "list_all2 valid_frame [(0x01, [], []), (0x02, [0x68, 0x69], [0x61])]
     [[0x12, 0x23, 0x33, 0x00, 0x00, 0x0C, 0x01, 0x10, 0x03, 0xAB, 0xCD, 0xEF],
      [0x12, 0x23, 0x33, 0x00, 0x00, 0x0F, 0x02, 0x61, 0x10, 0x03, 0x68, 0x69, 0xAB, 0xCD, 0xEF]]
   \<and> list_all (safe_cut
        [[0x12, 0x23, 0x33, 0x00, 0x00, 0x0C, 0x01, 0x10, 0x03, 0xAB, 0xCD, 0xEF],
         [0x12, 0x23, 0x33, 0x00, 0x00, 0x0F, 0x02, 0x61, 0x10, 0x03, 0x68, 0x69, 0xAB, 0xCD, 0xEF]])
        (cut_positions 0
          [[0x12, 0x23, 0x33, 0x00, 0x00],
           [0x0C, 0x01, 0x10, 0x03, 0xAB, 0xCD, 0xEF, 0x12, 0x23, 0x33, 0x00, 0x00, 0x0F, 0x02],
           [0x61, 0x10, 0x03, 0x68, 0x69, 0xAB, 0xCD, 0xEF]])
   \<and> map_sum id fst (decode_chunks
          [[0x12, 0x23, 0x33, 0x00, 0x00],
           [0x0C, 0x01, 0x10, 0x03, 0xAB, 0xCD, 0xEF, 0x12, 0x23, 0x33, 0x00, 0x00, 0x0F, 0x02],
           [0x61, 0x10, 0x03, 0x68, 0x69, 0xAB, 0xCD, 0xEF]] \<lparr>cache = None\<rparr>)
       = Inr [Frame (Some 0x01) [] [], Frame (Some 0x02) [0x68, 0x69] [0x61]]
   \<and> map_sum id fst (exports_decode
          [0x12, 0x23, 0x33, 0x00, 0x00, 0x0C, 0x01, 0x10, 0x03, 0xAB, 0xCD, 0xEF,
           0x12, 0x23, 0x33, 0x00, 0x00, 0x0F, 0x02, 0x61, 0x10, 0x03, 0x68, 0x69, 0xAB, 0xCD, 0xEF]
          \<lparr>cache = None\<rparr>)
       = Inr [Frame (Some 0x01) [] [], Frame (Some 0x02) [0x68, 0x69] [0x61]]"
proof -
  let ?b1 = "[0x12, 0x23, 0x33, 0x00, 0x00, 0x0C, 0x01, 0x10, 0x03, 0xAB, 0xCD, 0xEF] :: buffer"
  let ?b2 = "[0x12, 0x23, 0x33, 0x00, 0x00, 0x0F, 0x02, 0x61, 0x10, 0x03, 0x68, 0x69, 0xAB, 0xCD, 0xEF] :: buffer"
  let ?chunks = "[[0x12, 0x23, 0x33, 0x00, 0x00],
           [0x0C, 0x01, 0x10, 0x03, 0xAB, 0xCD, 0xEF, 0x12, 0x23, 0x33, 0x00, 0x00, 0x0F, 0x02],
           [0x61, 0x10, 0x03, 0x68, 0x69, 0xAB, 0xCD, 0xEF]] :: buffer list"
  have v: "list_all2 valid_frame [(0x01, [], []), (0x02, [0x68, 0x69], [0x61])] [?b1, ?b2]"
    by (simp add: valid_frame_eval MAX_INFO_SIZE_value frame_bytes_def length_bytes_def
        START_def END_def BOUNDARY_def JOINT_def)
  have c: "concat ?chunks = concat [?b1, ?b2]" by simp
  have s: "list_all (safe_cut [?b1, ?b2]) (cut_positions 0 ?chunks)"
    by (simp add: END_def suffix_to_prefix)
  have z: "zone_bytes \<lparr>cache = None\<rparr> = []" by (simp add: zone_bytes_def)
  from chunking_invariance_safe_cuts[OF v c s z] v s show ?thesis
    by (simp add: frame_of_def)
qed

text \<open>
  C2 as stated fails. Two frames with empty content and note, delivered in two chunks
  that are cut one byte before the end of the first frame: in one call the stream
  gives the two frames; in two calls the second chunk holds no end marker followed by
  a start marker, so the buffer grows to both frames and is decoded as one frame,
  whose content is the tail of the first frame and the head of the second.
\<close>

theorem chunking_invariance_counterexample:
  "list_all2 valid_frame [(0x01, [], []), (0x02, [], [])]
     [[0x12, 0x23, 0x33, 0x00, 0x00, 0x0C, 0x01, 0x10, 0x03, 0xAB, 0xCD, 0xEF],
      [0x12, 0x23, 0x33, 0x00, 0x00, 0x0C, 0x02, 0x10, 0x03, 0xAB, 0xCD, 0xEF]]
   \<and> map_sum id fst (exports_decode
          [0x12, 0x23, 0x33, 0x00, 0x00, 0x0C, 0x01, 0x10, 0x03, 0xAB, 0xCD, 0xEF,
           0x12, 0x23, 0x33, 0x00, 0x00, 0x0C, 0x02, 0x10, 0x03, 0xAB, 0xCD, 0xEF] \<lparr>cache = None\<rparr>)
       = Inr [Frame (Some 0x01) [] [], Frame (Some 0x02) [] []]
   \<and> map_sum id fst (decode_chunks
          [[0x12, 0x23, 0x33, 0x00, 0x00, 0x0C, 0x01, 0x10, 0x03, 0xAB, 0xCD],
           [0xEF, 0x12, 0x23, 0x33, 0x00, 0x00, 0x0C, 0x02, 0x10, 0x03, 0xAB, 0xCD, 0xEF]]
          \<lparr>cache = None\<rparr>)
       = Inr [Frame (Some 0x01)
                [0xAB, 0xCD, 0xEF, 0x12, 0x23, 0x33, 0x00, 0x00, 0x0C, 0x02, 0x10, 0x03] []]"
proof -
  let ?b1 = "[0x12, 0x23, 0x33, 0x00, 0x00, 0x0C, 0x01, 0x10, 0x03, 0xAB, 0xCD, 0xEF] :: buffer"
  let ?b2 = "[0x12, 0x23, 0x33, 0x00, 0x00, 0x0C, 0x02, 0x10, 0x03, 0xAB, 0xCD, 0xEF] :: buffer"
  let ?c1 = "[0x12, 0x23, 0x33, 0x00, 0x00, 0x0C, 0x01, 0x10, 0x03, 0xAB, 0xCD] :: buffer"
  let ?c2 = "[0xEF, 0x12, 0x23, 0x33, 0x00, 0x00, 0x0C, 0x02, 0x10, 0x03, 0xAB, 0xCD, 0xEF] :: buffer"
  have v: "list_all2 valid_frame [(0x01, [], []), (0x02, [], [])] [?b1, ?b2]"
    by (simp add: valid_frame_eval MAX_INFO_SIZE_value frame_bytes_def length_bytes_def
        START_def END_def BOUNDARY_def JOINT_def)
  have i: "indexOf (?b1 @ ?b2) JOINT = Some 9" by (simp add: JOINT_def START_def END_def)
  have n: "indexOf ?b2 JOINT = None" by (simp add: JOINT_def START_def END_def)
  have s: "split (?b1 @ ?b2) = [?b1, ?b2]"
    using cut_Some[OF i, of "[]"] by (simp add: split_def cut_None[OF n])
  have d1: "decode ?b1 \<lparr>cache = None\<rparr> = Inr (Frame (Some 1) [] [], \<lparr>cache = Some []\<rparr>)"
    by (simp add: codec_eval)
  have d2: "decode ?b2 \<lparr>cache = Some []\<rparr> = Inr (Frame (Some 2) [] [], \<lparr>cache = Some []\<rparr>)"
    by (simp add: codec_eval)
  have one: "exports_decode (?b1 @ ?b2) \<lparr>cache = None\<rparr>
      = Inr ([Frame (Some 1) [] [], Frame (Some 2) [] []], \<lparr>cache = Some []\<rparr>)"
    using s d1 d2 by (simp add: exports_decode_def)
  have n1: "indexOf ?c1 JOINT = None" by (simp add: JOINT_def START_def END_def)
  have n2: "indexOf ?c2 JOINT = None" by (simp add: JOINT_def START_def END_def)
  have e1: "decode ?c1 \<lparr>cache = None\<rparr> = Inr (IncompleteData ?c1, \<lparr>cache = Some ?c1\<rparr>)"
    by (simp add: codec_eval)
  have e2: "decode ?c2 \<lparr>cache = Some ?c1\<rparr>
      = Inr (Frame (Some 1) [0xAB, 0xCD, 0xEF, 0x12, 0x23, 0x33, 0x00, 0x00, 0x0C, 0x02, 0x10, 0x03] [],
             \<lparr>cache = Some []\<rparr>)"
    by (simp add: codec_eval)
  have two: "decode_chunks [?c1, ?c2] \<lparr>cache = None\<rparr>
      = Inr ([Frame (Some 1) [0xAB, 0xCD, 0xEF, 0x12, 0x23, 0x33, 0x00, 0x00, 0x0C, 0x02, 0x10, 0x03] []],
             \<lparr>cache = Some []\<rparr>)"
    using exports_decode_single[OF n1 e1] exports_decode_single[OF n2 e2] by simp
  from v one two show ?thesis by simp
qed

text \<open>
  C3. The length that \<open>decode\<close> reads is not always the length that \<open>encode\<close> wrote:
  for every type code there is a frame within the cap whose length bytes are read as
  another number. The frame of 256 bytes is one: its length bytes are 0, 1, 0, their
  hexadecimal texts are joined to \<open>010\<close>, and that is 16.
\<close>

theorem length_field_unreliable:
  "\<exists>content note bytes v.
     encode (Some [t]) (Some content) (Some note) = Inr (Bytes bytes)
     \<and> length bytes \<le> MAX_INFO_SIZE
     \<and> reduce_hex (slice bytes 3 6) = Inr v
     \<and> parseInt_val v \<noteq> Some (length bytes)"
proof -
  let ?content = "replicate 244 0 :: buffer"
  let ?bytes = "frame_bytes [t] ?content []"
  have e: "encode (Some [t]) (Some ?content) (Some []) = Inr (Bytes ?bytes)"
    by (rule encode_within_cap) (simp add: MAX_INFO_SIZE_value)
  have l: "length ?bytes = 256" by (simp add: frame_bytes_length)
  have s: "slice ?bytes 3 6 = [0, 1, 0]"
    by (simp add: frame_bytes_length_field length_bytes_def)
  have r: "reduce_hex [0, 1, 0] = Inr (Str ''010'')"
    by (simp add: reduce_hex_def toString_radix.simps digit_char_def)
  have p: "parseInt_val (Str ''010'') = Some 16"
    by (simp add: parseInt16_def hex_value_def)
  show ?thesis
    using e l s r p by (intro exI[of _ ?content] exI[of _ "[]"] exI[of _ ?bytes] exI[of _ "Str ''010''"])
      (simp add: MAX_INFO_SIZE_value)
qed

theorem length_field_unreliable_witness:
  "\<exists>content note bytes v.
     encode (Some [0x01]) (Some content) (Some note) = Inr (Bytes bytes)
     \<and> length bytes \<le> MAX_INFO_SIZE
     \<and> reduce_hex (slice bytes 3 6) = Inr v
     \<and> parseInt_val v \<noteq> Some (length bytes)"
  by (rule length_field_unreliable)

text \<open>
  C4 (as amended). A content and a note whose frame would be larger than 5 MiB are not
  encoded: the result is the empty object and no bytes. A piece that completes a buffer
  with both markers and whose length bytes, as \<open>decode\<close> reads them, exceed 5 MiB gives
  no frame, and the bytes stay in the reassembly buffer.
\<close>

theorem oversize_rejected:
  "(MAX_INFO_SIZE < 12 + length note + length content \<longrightarrow>
      encode (Some signal) (Some content) (Some note) = Inr EmptyObject)
   \<and> (indexOf data JOINT = None
        \<and> prefix START (zone_bytes z @ data) \<and> suffix END (zone_bytes z @ data)
        \<and> reduce_hex (slice (zone_bytes z @ data) 3 6) = Inr v
        \<and> oversize (parseInt_val v) \<longrightarrow>
      exports_decode data z = Inr ([], z\<lparr>cache := Some (zone_bytes z @ data)\<rparr>))"
proof (intro conjI impI)
  assume "MAX_INFO_SIZE < 12 + length note + length content"
  then show "encode (Some signal) (Some content) (Some note) = Inr EmptyObject"
    by (rule encode_over_cap)
next
  assume a: "indexOf data JOINT = None
        \<and> prefix START (zone_bytes z @ data) \<and> suffix END (zone_bytes z @ data)
        \<and> reduce_hex (slice (zone_bytes z @ data) 3 6) = Inr v
        \<and> oversize (parseInt_val v)"
  then have "decode data z =
     Inr (IncompleteCache (zone_bytes z @ data), z\<lparr>cache := Some (zone_bytes z @ data)\<rparr>)"
    by (intro decode_oversize[where v = v]) simp_all
  with a show "exports_decode data z = Inr ([], z\<lparr>cache := Some (zone_bytes z @ data)\<rparr>)"
    using exports_decode_single[of data z] by simp
qed

theorem oversize_rejected_witness:
  "MAX_INFO_SIZE < 12 + length ([] :: buffer) + length (replicate 5242869 (0 :: byte))
   \<and> encode (Some [0xFB]) (Some (replicate 5242869 0)) (Some []) = Inr EmptyObject
   \<and> indexOf [0x12, 0x23, 0x33, 0x60, 0x10, 0x10, 0x01, 0x10, 0x03, 0xAB, 0xCD, 0xEF :: byte] JOINT = None
   \<and> reduce_hex (slice [0x12, 0x23, 0x33, 0x60, 0x10, 0x10, 0x01, 0x10, 0x03, 0xAB, 0xCD, 0xEF] 3 6)
        = Inr (Str ''601010'')
   \<and> oversize (parseInt_val (Str ''601010''))
   \<and> exports_decode [0x12, 0x23, 0x33, 0x60, 0x10, 0x10, 0x01, 0x10, 0x03, 0xAB, 0xCD, 0xEF] \<lparr>cache = None\<rparr>
       = Inr ([], \<lparr>cache = Some [0x12, 0x23, 0x33, 0x60, 0x10, 0x10, 0x01, 0x10, 0x03, 0xAB, 0xCD, 0xEF]\<rparr>)"
proof -
  let ?d = "[0x12, 0x23, 0x33, 0x60, 0x10, 0x10, 0x01, 0x10, 0x03, 0xAB, 0xCD, 0xEF] :: buffer"
  let ?z = "\<lparr>cache = None\<rparr>"
  have big: "MAX_INFO_SIZE < 12 + length ([] :: buffer) + length (replicate 5242869 (0 :: byte))"
    by (simp add: MAX_INFO_SIZE_value)
  have j: "indexOf ?d JOINT = None" by (simp add: JOINT_def START_def END_def)
  have zb: "zone_bytes ?z @ ?d = ?d" by (simp add: zone_bytes_def)
  have p: "prefix START (zone_bytes ?z @ ?d)" "suffix END (zone_bytes ?z @ ?d)"
    by (simp_all add: zb START_def END_def suffix_to_prefix)
  have r: "reduce_hex (slice (zone_bytes ?z @ ?d) 3 6) = Inr (Str ''601010'')"
    by (simp add: zb slice_def clamp_index_def reduce_hex_def toString_radix.simps digit_char_def)
  have o: "oversize (parseInt_val (Str ''601010''))"
    by (simp add: oversize_def parseInt16_def hex_value_def MAX_INFO_SIZE_value)
  from oversize_rejected[of "[]" "replicate 5242869 0" "[0xFB]" ?d ?z "Str ''601010''"]
    big j p r o
  show ?thesis by (simp add: zb)
qed

text \<open>
  C4 as stated fails in its last part: the piece with the length bytes 60 10 10
  (6295568, above the cap, and read as such) gives no frame, and the whole piece is
  the content of the buffer afterwards.
\<close>

theorem oversize_dropped_counterexample:
  "exports_decode [0x12, 0x23, 0x33, 0x60, 0x10, 0x10, 0x01, 0x10, 0x03, 0xAB, 0xCD, 0xEF] \<lparr>cache = None\<rparr>
     = Inr ([], \<lparr>cache = Some [0x12, 0x23, 0x33, 0x60, 0x10, 0x10, 0x01, 0x10, 0x03, 0xAB, 0xCD, 0xEF]\<rparr>)
   \<and> be24 0x60 0x10 0x10 = 6295568 \<and> MAX_INFO_SIZE < be24 0x60 0x10 0x10"
proof -
  let ?d = "[0x12, 0x23, 0x33, 0x60, 0x10, 0x10, 0x01, 0x10, 0x03, 0xAB, 0xCD, 0xEF] :: buffer"
  have j: "indexOf ?d JOINT = None" by (simp add: JOINT_def START_def END_def)
  have d: "decode ?d \<lparr>cache = None\<rparr> = Inr (IncompleteCache ?d, \<lparr>cache = Some ?d\<rparr>)"
    by (simp add: codec_eval)
  show ?thesis
    using exports_decode_single[OF j d] by (simp add: be24_def MAX_INFO_SIZE_value)
qed

section \<open>The connection handlers: properties\<close>







text \<open>
  C9. A call of \<open>socket.checked()\<close> while the property is \<open>undefined\<close> raises a \<open>TypeError\<close>:
  so does the callback of a File-Check whose hash matches the file, and so does a
  File-Sync of a path other than the manifest, whatever else the state is. Once a
  Number-Of-Check-Files message has been handled, the callback of a matching
  File-Check returns, with the countdown one lower.
\<close>

theorem barrier_uninstalled_throws:
  "(checked w = None \<longrightarrow>
      fileCheck_readFile E w filepath (md5 E file) (Data file) = Inl TypeError
      \<and> (to_string note \<noteq> ''package.json'' \<longrightarrow>
            handle E w (Frame (Some CLIENT_FILE_SYNC) content note) = Inl TypeError))
   \<and> (\<exists>w1 w2. handle E w (Frame (Some CLIENT_NUMBER_OF_CHECK_FILES) content note) = Inr w1
          \<and> fileCheck_readFile E w1 filepath (md5 E file) (Data file) = Inr w2
          \<and> checked w2 = Some (map_option (\<lambda>n. n - 1) (Number E (to_string content))))"
proof (intro conjI impI)
  assume "checked w = None"
  then show "fileCheck_readFile E w filepath (md5 E file) (Data file) = Inl TypeError"
    by (simp add: fileCheck_readFile_def socket_checked_def)
next
  assume c: "checked w = None" and n: "to_string note \<noteq> ''package.json''"
  have "fileSync E w (to_string note) content = Inl TypeError"
  proof (cases "sync w")
    case None
    then show ?thesis by (simp add: fileSync_def)
  next
    case (Some ps)
    define p where "p = fst (new_promise w)"
    define w1 where "w1 = snd (new_promise w)"
    define w2 where "w2 = (case fileCover E w1 (to_string note) content (Resolve p) of
                          Inl e \<Rightarrow> settle p Rejected w1
                        | Inr w' \<Rightarrow> w')"
    have "checked w2 = None"
      using c by (auto simp: w2_def w1_def fileCover_fields split: sum.splits)
    then have t: "socket_checked (w2\<lparr>sync := Some (ps @ [p])\<rparr>) = Inl TypeError"
      by (simp add: socket_checked_def)
    have "fileSync E w (to_string note) content = socket_checked (w2\<lparr>sync := Some (ps @ [p])\<rparr>)"
      unfolding fileSync_def Let_def split_beta w2_def w1_def p_def
      using n Some by (simp only: option.case if_True not_False_eq_True simp_thms)
    then show ?thesis by (simp only: t)
  qed
  then show "handle E w (Frame (Some CLIENT_FILE_SYNC) content note) = Inl TypeError"
    by (simp add: handle_def CLIENT_FILE_SYNC_def CLIENT_INIT_def CLIENT_FILE_CHANGE_def
        CLIENT_FILE_DELETE_def CLIENT_FILE_CHECK_def)
next
  define total0 where "total0 = Number E (to_string content)"
  define w1 where "w1 = w\<lparr>checked := Some total0\<rparr>"
  have h: "handle E w (Frame (Some CLIENT_NUMBER_OF_CHECK_FILES) content note) = Inr w1"
    by (simp add: handle_def fileCheckCallBack_def w1_def total0_def
        CLIENT_NUMBER_OF_CHECK_FILES_def CLIENT_FILE_SYNC_def CLIENT_INIT_def
        CLIENT_FILE_CHANGE_def CLIENT_FILE_DELETE_def CLIENT_FILE_CHECK_def)
  have "checked w1 = Some total0" by (simp add: w1_def)
  from socket_checked_eq[OF this]
  obtain w2 where s: "socket_checked w1 = Inr w2" "checked w2 = Some (map_option (\<lambda>n. n - 1) total0)"
    by simp
  then have "fileCheck_readFile E w1 filepath (md5 E file) (Data file) = Inr w2"
    by (simp add: fileCheck_readFile_def)
  with h s(2) show "\<exists>w1 w2. handle E w (Frame (Some CLIENT_NUMBER_OF_CHECK_FILES) content note) = Inr w1
          \<and> fileCheck_readFile E w1 filepath (md5 E file) (Data file) = Inr w2
          \<and> checked w2 = Some (map_option (\<lambda>n. n - 1) (Number E (to_string content)))"
    unfolding total0_def by blast
qed

theorem barrier_uninstalled_throws_witness:
  "checked active = None
   \<and> fileCheck_readFile example_env active ''a'' (md5 example_env [0x07]) (Data [0x07]) = Inl TypeError
   \<and> to_string [0x61] \<noteq> ''package.json''
   \<and> handle example_env active (Frame (Some CLIENT_FILE_SYNC) [] [0x61]) = Inl TypeError"
  using barrier_uninstalled_throws[of active example_env "''a''" "[0x07]" "[0x61]" "[]"]
  by (simp add: active_def fresh_def to_string_a)


end
